theory Spec2Isabelle
  imports Complex_Main "HOL-Library.Char_ord" "HOL-Library.List_Lexorder"
    "HOL-Library.Multiset" "HOL-Library.Log_Nat"
begin

section \<open>Go strings as byte lists\<close>

text \<open>
  A Go \<open>string\<close> is a sequence of bytes; \<^typ>\<open>string\<close> is a list of 8-bit characters,
  and \<^term>\<open>of_char c :: nat\<close> is the byte's value. The helpers below are the functions of
  the packages \<open>strings\<close>, \<open>unicode/utf8\<close> and \<open>path/filepath\<close> that \<open>main.go\<close> calls,
  for a system whose path separator is \<open>/\<close> (the install script ships Linux and Darwin
  builds).
\<close>

definition backslash :: char where
  "backslash = CHR 0x5C"

definition Separator :: char where
  "Separator = CHR ''/''"

definition strings_HasPrefix :: "string \<Rightarrow> string \<Rightarrow> bool" where
  "strings_HasPrefix s pre = (length pre \<le> length s \<and> take (length pre) s = pre)"

definition strings_HasSuffix :: "string \<Rightarrow> string \<Rightarrow> bool" where
  "strings_HasSuffix s suf =
     (length suf \<le> length s \<and> drop (length s - length suf) s = suf)"

definition strings_TrimSuffix :: "string \<Rightarrow> string \<Rightarrow> string" where
  "strings_TrimSuffix s suf =
     (if strings_HasSuffix s suf then take (length s - length suf) s else s)"

text \<open>\<open>strings.Contains(s, string(c))\<close> for a one-byte substring.\<close>

definition strings_Contains :: "string \<Rightarrow> char \<Rightarrow> bool" where
  "strings_Contains s c = (c \<in> set s)"

text \<open>\<open>strings.ReplaceAll(s, string(old), new)\<close> for a one-byte \<open>old\<close>.\<close>

fun strings_ReplaceAll :: "string \<Rightarrow> char \<Rightarrow> string \<Rightarrow> string" where
  "strings_ReplaceAll [] old new = []"
| "strings_ReplaceAll (c # cs) old new =
     (if c = old then new @ strings_ReplaceAll cs old new
      else c # strings_ReplaceAll cs old new)"

text \<open>
  \<open>strings.Split(s, string(sep))\<close> for a one-byte separator: the pieces between the
  separators, one more than there are separators (the empty string gives one empty piece).
\<close>

fun strings_Split :: "string \<Rightarrow> char \<Rightarrow> string list" where
  "strings_Split [] sep = [[]]"
| "strings_Split (c # cs) sep =
     (if c = sep then [] # strings_Split cs sep
      else (case strings_Split cs sep of
              [] \<Rightarrow> [[c]]
            | p # ps \<Rightarrow> (c # p) # ps))"

definition filepath_ToSlash :: "string \<Rightarrow> string" where
  "filepath_ToSlash path =
     (if Separator = CHR ''/'' then path
      else strings_ReplaceAll path Separator ''/'')"

text \<open>
  \<open>filepath.Base\<close>: the last element of the path, after removing trailing separators;
  \<open>.\<close> for the empty path and \<open>/\<close> for a path of separators only.
\<close>

definition filepath_Base :: "string \<Rightarrow> string" where
  "filepath_Base path =
     (if path = [] then ''.''
      else
        let stripped = rev (dropWhile (\<lambda>c. c = Separator) (rev path));
            elem = rev (takeWhile (\<lambda>c. c \<noteq> Separator) (rev stripped))
        in if elem = [] then [Separator] else elem)"

text \<open>
  \<open>filepath.Ext\<close>: the suffix beginning at the last dot of the last path element,
  empty when that element has no dot.
\<close>

fun ext_scan :: "string \<Rightarrow> string \<Rightarrow> string" where
  "ext_scan [] acc = []"
| "ext_scan (c # cs) acc =
     (if c = Separator then []
      else if c = CHR ''.'' then c # acc
      else ext_scan cs (c # acc))"

definition filepath_Ext :: "string \<Rightarrow> string" where
  "filepath_Ext path = ext_scan (rev path) []"

subsection \<open>UTF-8 decoding\<close>

definition RuneError :: nat where
  "RuneError = 0xFFFD"

text \<open>
  \<open>utf8.DecodeRuneInString\<close>: the first code point of the string and its width in bytes;
  \<open>(RuneError, 0)\<close> for the empty string and \<open>(RuneError, 1)\<close> for an invalid encoding.
  The bounds on the second byte are those of the table \<open>acceptRanges\<close>.
\<close>

definition utf8_DecodeRuneInString :: "string \<Rightarrow> nat \<times> nat" where
  "utf8_DecodeRuneInString s =
     (case map of_char s of
        [] \<Rightarrow> (RuneError, 0)
      | s0 # bs \<Rightarrow>
          if s0 < 0x80 then (s0, 1)
          else if s0 < 0xC2 \<or> 0xF4 < s0 then (RuneError, 1)
          else
            let sz = (if s0 < 0xE0 then 2 else if s0 < 0xF0 then 3 else 4 :: nat);
                lo = (if s0 = 0xE0 then 0xA0 else if s0 = 0xF0 then 0x90 else 0x80 :: nat);
                hi = (if s0 = 0xED then 0x9F else if s0 = 0xF4 then 0x8F else 0xBF :: nat)
            in if length s < sz then (RuneError, 1)
               else
                 let s1 = bs ! 0
                 in if s1 < lo \<or> hi < s1 then (RuneError, 1)
                    else if sz \<le> 2 then ((s0 mod 32) * 64 + s1 mod 64, 2)
                    else
                      let s2 = bs ! 1
                      in if s2 < 0x80 \<or> 0xBF < s2 then (RuneError, 1)
                         else if sz \<le> 3
                         then ((s0 mod 16) * 4096 + (s1 mod 64) * 64 + s2 mod 64, 3)
                         else
                           let s3 = bs ! 2
                           in if s3 < 0x80 \<or> 0xBF < s3 then (RuneError, 1)
                              else ((s0 mod 8) * 262144 + (s1 mod 64) * 4096
                                      + (s2 mod 64) * 64 + s3 mod 64, 4))"

subsection \<open>\<open>filepath.Match\<close>\<close>

text \<open>
  The shell-pattern matcher of \<open>path/filepath\<close>. A pattern is cut into chunks, each a run
  of single-character operators (literals, \<open>?\<close>, classes \<open>[...]\<close>, escapes) that may be
  preceded by stars. \<open>main.go\<close> discards the error result at every call
  (\<open>matched, _ := filepath.Match(...)\<close>), and \<open>Match\<close> returns \<open>false\<close> together with
  \<open>ErrBadPattern\<close>, so the model keeps the boolean and lets a malformed pattern give
  \<^term>\<open>False\<close>.
\<close>

text \<open>
  \<open>scanChunk\<close>: the leading stars are dropped (and remembered); the chunk ends at the
  first star outside brackets. An escape skips the byte after it.
\<close>

fun scan_end :: "bool \<Rightarrow> string \<Rightarrow> nat" where
  "scan_end inrange [] = 0"
| "scan_end inrange (c # cs) =
     (if c = backslash then
        (case cs of [] \<Rightarrow> 1 | d # ds \<Rightarrow> 2 + scan_end inrange ds)
      else if c = CHR ''['' then 1 + scan_end True cs
      else if c = CHR '']'' then 1 + scan_end False cs
      else if c = CHR ''*'' then (if inrange then 1 + scan_end inrange cs else 0)
      else 1 + scan_end inrange cs)"

definition scanChunk :: "string \<Rightarrow> bool \<times> string \<times> string" where
  "scanChunk pattern =
     (let star = (pattern \<noteq> [] \<and> hd pattern = CHR ''*'');
          p = dropWhile (\<lambda>c. c = CHR ''*'') pattern;
          i = scan_end False p
      in (star, take i p, drop i p))"

text \<open>
  \<open>getEsc\<close>: one possibly escaped code point of a character class; \<^term>\<open>None\<close> is
  \<open>ErrBadPattern\<close>.
\<close>

definition getEsc :: "string \<Rightarrow> (nat \<times> string) option" where
  "getEsc chunk0 =
     (if chunk0 = [] \<or> hd chunk0 = CHR ''-'' \<or> hd chunk0 = CHR '']'' then None
      else
        let chunk = (if hd chunk0 = backslash then tl chunk0 else chunk0)
        in if chunk = [] then None
           else
             let (r, n) = utf8_DecodeRuneInString chunk;
                 nchunk = drop n chunk
             in if (r = RuneError \<and> n = 1) \<or> nchunk = [] then None
                else Some (r, nchunk))"

datatype chunk_result = BadPattern | NoMatch | Matched string

lemma decode_width_pos: "s \<noteq> [] \<Longrightarrow> 0 < snd (utf8_DecodeRuneInString s)"
  by (cases s) (simp_all add: utf8_DecodeRuneInString_def Let_def)

lemma getEsc_shorter: "getEsc chunk = Some (r, rest) \<Longrightarrow> length rest < length chunk"
proof -
  assume a: "getEsc chunk = Some (r, rest)"
  define c where "c = (if hd chunk = backslash then tl chunk else chunk)"
  from a have ne: "c \<noteq> []" and rest: "rest = drop (snd (utf8_DecodeRuneInString c)) c"
    by (auto simp: getEsc_def c_def Let_def split: if_splits prod.splits)
  from ne have "0 < snd (utf8_DecodeRuneInString c)" by (rule decode_width_pos)
  with ne rest have "length rest < length c" by simp
  moreover have "length c \<le> length chunk" by (simp add: c_def)
  ultimately show ?thesis by simp
qed

text \<open>
  The ranges of a character class, up to the closing bracket: \<open>r\<close> is the code point
  read from the name, \<open>match\<close> tells whether a range has held it, \<open>nrange\<close> counts the
  ranges parsed. \<^term>\<open>None\<close> is \<open>ErrBadPattern\<close>.
\<close>

function class_ranges :: "nat \<Rightarrow> string \<Rightarrow> bool \<Rightarrow> nat \<Rightarrow> (bool \<times> string) option" where
  "class_ranges r chunk match nrange =
     (if chunk \<noteq> [] \<and> hd chunk = CHR '']'' \<and> 0 < nrange then Some (match, tl chunk)
      else
        (case getEsc chunk of
           None \<Rightarrow> None
         | Some (lo, chunk1) \<Rightarrow>
             if hd chunk1 = CHR ''-'' then
               (case getEsc (tl chunk1) of
                  None \<Rightarrow> None
                | Some (hi, chunk2) \<Rightarrow>
                    class_ranges r chunk2 (match \<or> (lo \<le> r \<and> r \<le> hi)) (nrange + 1))
             else class_ranges r chunk1 (match \<or> (lo \<le> r \<and> r \<le> lo)) (nrange + 1)))"
  by pat_completeness auto
termination
proof (relation "measure (\<lambda>(r, chunk, match, nrange). length chunk)")
  show "wf (measure (\<lambda>(r, chunk, match, nrange). length chunk))" by simp
next
  fix r :: nat and chunk :: string and match :: bool and nrange :: nat
    and x2 :: "nat \<times> string" and lo chunk1 and x2a :: "nat \<times> string" and hi chunk2
  assume "getEsc chunk = Some x2" "(lo, chunk1) = x2"
    "getEsc (tl chunk1) = Some x2a" "(hi, chunk2) = x2a"
  then have "length chunk1 < length chunk" "length chunk2 < length (tl chunk1)"
    by (auto dest: getEsc_shorter)
  then show "((r, chunk2, match \<or> lo \<le> r \<and> r \<le> hi, nrange + 1), r, chunk, match, nrange)
      \<in> measure (\<lambda>(r, chunk, match, nrange). length chunk)"
    by simp
next
  fix r :: nat and chunk :: string and match :: bool and nrange :: nat
    and x2 :: "nat \<times> string" and lo chunk1
  assume "getEsc chunk = Some x2" "(lo, chunk1) = x2"
  then have "length chunk1 < length chunk"
    by (auto dest: getEsc_shorter)
  then show "((r, chunk1, match \<or> lo \<le> r \<and> r \<le> lo, nrange + 1), r, chunk, match, nrange)
      \<in> measure (\<lambda>(r, chunk, match, nrange). length chunk)"
    by simp
qed


declare class_ranges.simps [simp del]

lemma class_ranges_shorter:
  "class_ranges r chunk match nrange = Some (m, rest) \<Longrightarrow> length rest \<le> length chunk"
proof (induction r chunk match nrange rule: class_ranges.induct)
  case (1 r chunk match nrange)
  note eq = class_ranges.simps [of r chunk match nrange]
  show ?case
  proof (cases "chunk \<noteq> [] \<and> hd chunk = CHR '']'' \<and> 0 < nrange")
    case True
    then have "class_ranges r chunk match nrange = Some (match, tl chunk)"
      by (subst eq) simp
    with "1.prems" show ?thesis by auto
  next
    case False
    then have eq2: "class_ranges r chunk match nrange =
        (case getEsc chunk of
           None \<Rightarrow> None
         | Some (lo, chunk1) \<Rightarrow>
             if hd chunk1 = CHR ''-'' then
               (case getEsc (tl chunk1) of
                  None \<Rightarrow> None
                | Some (hi, chunk2) \<Rightarrow>
                    class_ranges r chunk2 (match \<or> (lo \<le> r \<and> r \<le> hi)) (nrange + 1))
             else class_ranges r chunk1 (match \<or> (lo \<le> r \<and> r \<le> lo)) (nrange + 1))"
      by (subst eq) (simp only: if_False)
    show ?thesis
    proof (cases "getEsc chunk")
      case None
      with eq2 "1.prems" show ?thesis by simp
    next
      case (Some a)
      obtain lo chunk1 where a: "a = (lo, chunk1)" by (cases a)
      have l1: "length chunk1 < length chunk"
        using Some a by (auto dest: getEsc_shorter)
      show ?thesis
      proof (cases "hd chunk1 = CHR ''-''")
        case dash: True
        show ?thesis
        proof (cases "getEsc (tl chunk1)")
          case None
          with eq2 Some a dash "1.prems" show ?thesis by simp
        next
          case Some2: (Some b)
          obtain hi chunk2 where b: "b = (hi, chunk2)" by (cases b)
          have l2: "length chunk2 < length (tl chunk1)"
            using Some2 b by (auto dest: getEsc_shorter)
          have "class_ranges r chunk2 (match \<or> (lo \<le> r \<and> r \<le> hi)) (nrange + 1)
                  = Some (m, rest)"
            using "1.prems" eq2 Some a dash Some2 b by simp
          then have "length rest \<le> length chunk2"
            by (rule "1.IH"(1) [OF False Some a [symmetric] dash Some2 b [symmetric]])
          with l1 l2 show ?thesis by simp
        qed
      next
        case nodash: False
        have "class_ranges r chunk1 (match \<or> (lo \<le> r \<and> r \<le> lo)) (nrange + 1)
                = Some (m, rest)"
          using "1.prems" eq2 Some a nodash by simp
        then have "length rest \<le> length chunk1"
          by (rule "1.IH"(2) [OF False Some a [symmetric] nodash])
        with l1 show ?thesis by simp
      qed
    qed
  qed
qed


text \<open>
  \<open>matchChunk\<close>: does the chunk match a prefix of \<open>s\<close>? On success the rest of \<open>s\<close> is
  returned. After a mismatch (\<open>failed\<close>) the chunk is still read to its end, to find a
  malformed pattern, but \<open>s\<close> is no longer read. The cases are those of the \<open>switch\<close>: a
  class, \<open>?\<close> (any code point but the separator), an escaped byte, a literal byte.
\<close>

function matchChunk :: "bool \<Rightarrow> string \<Rightarrow> string \<Rightarrow> chunk_result" where
  "matchChunk failed0 [] s = (if failed0 then NoMatch else Matched s)"
| "matchChunk failed0 (c # chunk) s =
     (let failed = (failed0 \<or> s = []) in
      if c = CHR ''['' then
        (let r = (if failed then 0 else fst (utf8_DecodeRuneInString s));
             s' = (if failed then s else drop (snd (utf8_DecodeRuneInString s)) s);
             negated = (chunk \<noteq> [] \<and> hd chunk = CHR ''^'');
             chunk1 = (if negated then tl chunk else chunk)
         in case class_ranges r chunk1 False 0 of
              None \<Rightarrow> BadPattern
            | Some (match, chunk2) \<Rightarrow> matchChunk (failed \<or> match = negated) chunk2 s')
      else if c = CHR ''?'' then
        (if failed then matchChunk failed chunk s
         else matchChunk (hd s = Separator) chunk (drop (snd (utf8_DecodeRuneInString s)) s))
      else if c = backslash then
        (case chunk of
           [] \<Rightarrow> BadPattern
         | d # chunk' \<Rightarrow>
             if failed then matchChunk failed chunk' s
             else matchChunk (d \<noteq> hd s) chunk' (tl s))
      else
        (if failed then matchChunk failed chunk s
         else matchChunk (c \<noteq> hd s) chunk (tl s)))"
  by pat_completeness auto
termination
proof (relation "measure (\<lambda>(failed, chunk, s). length chunk)", goal_cases)
  case 1
  show ?case by simp
next
  case (2 failed0 c chunk s failed r s' negated chunk1 x2 match chunk2)
  then have "length chunk2 \<le> length chunk1"
    by (auto dest: class_ranges_shorter)
  moreover have "length chunk1 \<le> length chunk"
    using 2 by simp
  ultimately show ?case by simp
qed simp_all

text \<open>
  The search of \<open>Match\<close> after a star: the chunk is tried after skipping \<open>i + 1\<close> bytes of
  the name, for each \<open>i\<close> up to the first separator. \<open>final\<close> tells that no pattern is
  left after the chunk, in which case the chunk must consume the name to its end. The
  result is the rest of the name after the first fit; \<^term>\<open>None\<close> makes \<open>Match\<close> return
  \<open>false\<close>.
\<close>

fun star_scan :: "string \<Rightarrow> bool \<Rightarrow> string \<Rightarrow> string option" where
  "star_scan chunk final [] = None"
| "star_scan chunk final (c # cs) =
     (if c = Separator then None
      else
        (case matchChunk False chunk cs of
           Matched t \<Rightarrow> if final \<and> t \<noteq> [] then star_scan chunk final cs else Some t
         | BadPattern \<Rightarrow> None
         | NoMatch \<Rightarrow> star_scan chunk final cs))"

lemma scan_end_pos: "p \<noteq> [] \<Longrightarrow> hd p \<noteq> CHR ''*'' \<Longrightarrow> 0 < scan_end inrange p"
  by (cases p) (auto split: list.splits)

lemma scanChunk_shorter:
  assumes "pattern \<noteq> []" and "(star, chunk, rest) = scanChunk pattern"
  shows "length rest < length pattern"
proof -
  define p where "p = dropWhile (\<lambda>c. c = CHR ''*'') pattern"
  have rest: "rest = drop (scan_end False p) p"
    using assms(2) [symmetric] by (simp add: scanChunk_def p_def Let_def)
  have le: "length p \<le> length pattern"
    by (simp add: p_def length_dropWhile_le)
  show ?thesis
  proof (cases "hd pattern = CHR ''*''")
    case True
    with assms(1) have "length p < length pattern"
      by (cases pattern) (auto simp: p_def intro: le_imp_less_Suc length_dropWhile_le)
    with rest show ?thesis by simp
  next
    case False
    with assms(1) have "p = pattern"
      by (cases pattern) (auto simp: p_def)
    with False assms(1) have "0 < scan_end False p"
      by (simp add: scan_end_pos)
    with rest \<open>p = pattern\<close> assms(1) show ?thesis by simp
  qed
qed

text \<open>
  \<open>filepath.Match\<close>: a trailing star matches the rest of the name unless it holds a
  separator; otherwise the chunk is matched where the name stands, or, after a star,
  further on. The pattern is used up when the name must be.
\<close>

function filepath_Match :: "string \<Rightarrow> string \<Rightarrow> bool" where
  "filepath_Match pattern name =
     (if pattern = [] then name = []
      else
        (case scanChunk pattern of
           (star, chunk, rest) \<Rightarrow>
             if star \<and> chunk = [] then Separator \<notin> set name
             else
               (case matchChunk False chunk name of
                  BadPattern \<Rightarrow> False
                | Matched t \<Rightarrow>
                    if t = [] \<or> rest \<noteq> [] then filepath_Match rest t
                    else if star then
                      (case star_scan chunk (rest = []) name of
                         None \<Rightarrow> False
                       | Some t' \<Rightarrow> filepath_Match rest t')
                    else False
                | NoMatch \<Rightarrow>
                    if star then
                      (case star_scan chunk (rest = []) name of
                         None \<Rightarrow> False
                       | Some t' \<Rightarrow> filepath_Match rest t')
                    else False)))"
  by pat_completeness auto
termination
  by (relation "measure (\<lambda>(pattern, name). length pattern)")
     (auto intro: scanChunk_shorter)

declare filepath_Match.simps [simp del]

section \<open>The services of the host\<close>

text \<open>
  What the program asks of the operating system and of Unicode-aware library code is
  passed to the model as a record of functions, so that every theorem holds whatever they
  answer:
  \<^item> \<open>Stat\<close>: \<open>os.Stat\<close>, an error or the entry's \<open>FileInfo\<close>;
  \<^item> \<open>ReadFile\<close>: \<open>os.ReadFile\<close>, an error or the file's bytes;
  \<^item> \<open>Open\<close>: \<open>os.Open\<close> followed by one \<open>Read\<close>; opening fails, or the file is open
    and its \<open>Read\<close> fails with an error other than \<open>io.EOF\<close>, or the file has the given
    bytes, of which a \<open>Read\<close> into a buffer of 512 bytes delivers the first 512;
  \<^item> \<open>Rel\<close> and \<open>Join\<close>: \<open>filepath.Rel\<close> (\<^term>\<open>None\<close> when it fails) and
    \<open>filepath.Join\<close> of a directory and a name;
  \<^item> \<open>ToLower\<close> and \<open>TrimSpace\<close>: \<open>strings.ToLower\<close> and \<open>strings.TrimSpace\<close>, which
    follow the Unicode tables.
\<close>

datatype io_error = ErrNotExist | ErrPermission | ErrOther

record FileInfo =
  IsDir :: bool

datatype opened_file = ReadError io_error | Bytes string

record host =
  Stat :: "string \<Rightarrow> io_error + FileInfo"
  ReadFile :: "string \<Rightarrow> io_error + string"
  Open :: "string \<Rightarrow> io_error + opened_file"
  Rel :: "string \<Rightarrow> string \<Rightarrow> string option"
  Join :: "string \<Rightarrow> string \<Rightarrow> string"
  ToLower :: "string \<Rightarrow> string"
  TrimSpace :: "string \<Rightarrow> string"

definition os_IsNotExist :: "io_error \<Rightarrow> bool" where
  "os_IsNotExist err = (err = ErrNotExist)"

section \<open>The pattern matcher\<close>

text \<open>
  \<open>isDirectory(path)\<close>. The matcher calls it on the path relative to the root, which
  \<open>os.Stat\<close> resolves against the working directory of the process: the answer is the
  host's, whatever the walked tree holds at that path.
\<close>

definition isDirectory :: "host \<Rightarrow> string \<Rightarrow> bool" where
  "isDirectory h path =
     (case Stat h path of
        Inl err \<Rightarrow> False
      | Inr info \<Rightarrow> IsDir info)"

text \<open>
  The expression that \<open>matchesGitIgnorePattern\<close> builds from a pattern holding a star
  (lines 257 to 267): dots escaped, \<open>*\<close> turned into \<open>.*\<close>, \<open>?\<close> into \<open>.\<close>, and the
  anchors \<open>^\<close> and \<open>$\<close> added where the pattern does not begin or end with a star.
\<close>

definition regexPattern :: "string \<Rightarrow> string" where
  "regexPattern pattern =
     (let r1 = strings_ReplaceAll pattern (CHR ''.'') [backslash, CHR ''.''];
          r2 = strings_ReplaceAll r1 (CHR ''*'') ''.*'';
          r3 = strings_ReplaceAll r2 (CHR ''?'') ''.'';
          r4 = (if \<not> strings_HasPrefix pattern ''*'' then ''^'' @ r3 else r3)
      in if \<not> strings_HasSuffix pattern ''*'' then r4 @ ''$'' else r4)"

text \<open>
  \<open>matchesGitIgnorePattern(path, pattern)\<close>. The flag \<open>isDir\<close> of the source is true when
  the path ends with a slash or \<open>os.Stat\<close> finds a directory at it.
\<close>

definition matchesGitIgnorePattern :: "host \<Rightarrow> string \<Rightarrow> string \<Rightarrow> bool" where
  "matchesGitIgnorePattern h path pattern0 =
     (let pattern1 = filepath_ToSlash pattern0;
          isDirOnly = strings_HasSuffix pattern1 ''/'';
          pattern = (if isDirOnly then strings_TrimSuffix pattern1 ''/'' else pattern1);
          isDir = (strings_HasSuffix path ''/'' \<or> isDirectory h path)
      in if isDirOnly \<and> \<not> isDir then False
         else if strings_Contains pattern (CHR ''*'') then
           (if filepath_Match (regexPattern pattern) path then True
            else list_ex (\<lambda>part. filepath_Match (regexPattern pattern) part)
                   (strings_Split path (CHR ''/'')))
         else if pattern = filepath_Base path then True
         else if pattern = path then True
         else filepath_Match pattern path)"

text \<open>
  \<open>isPathIgnored(path, rootDir, patterns)\<close>: the path is made relative to the root (the
  path itself is kept when \<open>filepath.Rel\<close> fails) and tried against each pattern in turn;
  the first match answers \<open>true\<close>.
\<close>

fun match_any :: "host \<Rightarrow> string \<Rightarrow> string list \<Rightarrow> bool" where
  "match_any h relPath [] = False"
| "match_any h relPath (pattern # patterns) =
     (if matchesGitIgnorePattern h relPath pattern then True
      else match_any h relPath patterns)"

definition isPathIgnored :: "host \<Rightarrow> string \<Rightarrow> string \<Rightarrow> string list \<Rightarrow> bool" where
  "isPathIgnored h path rootDir patterns =
     (if length patterns = 0 then False
      else
        let relPath = (case Rel h rootDir path of None \<Rightarrow> path | Some rel \<Rightarrow> rel)
        in match_any h (filepath_ToSlash relPath) patterns)"


text \<open>
  The wildcard procedure as section 4.1 of the specification words it, for a pattern that
  is already a shell glob (\<open>*\<close> for any run of bytes and \<open>?\<close> for one character, neither
  crossing a \<open>/\<close>, which is how \<open>filepath.Match\<close> reads them): the full path is tested
  against the glob, then each segment of the path.
\<close>

definition spec_wildcard_match :: "string \<Rightarrow> string \<Rightarrow> bool" where
  "spec_wildcard_match glob path =
     (filepath_Match glob path
      \<or> list_ex (\<lambda>segment. filepath_Match glob segment) (strings_Split path (CHR ''/'')))"

text \<open>
  A host for evaluating the model at concrete inputs: an empty file system (every
  \<open>Stat\<close>, \<open>ReadFile\<close> and \<open>Open\<close> fails), \<open>Rel\<close> and \<open>Join\<close> for a clean base directory and a
  path below it, and the ASCII part of \<open>ToLower\<close> and \<open>TrimSpace\<close>.
\<close>

definition ascii_space :: "char \<Rightarrow> bool" where
  "ascii_space c = (c \<in> set [CHR 0x09, CHR 0x0A, CHR 0x0B, CHR 0x0C, CHR 0x0D, CHR '' ''])"

definition ascii_TrimSpace :: "string \<Rightarrow> string" where
  "ascii_TrimSpace s = rev (dropWhile ascii_space (rev (dropWhile ascii_space s)))"

definition ascii_ToLower :: "string \<Rightarrow> string" where
  "ascii_ToLower s =
     map (\<lambda>c. if CHR ''A'' \<le> c \<and> c \<le> CHR ''Z'' then char_of (of_char c + 32 :: nat) else c) s"

definition example_host :: host where
  "example_host =
     \<lparr> Stat = (\<lambda>path. Inl ErrNotExist),
       ReadFile = (\<lambda>path. Inl ErrNotExist),
       Open = (\<lambda>path. Inl ErrNotExist),
       Rel = (\<lambda>base targ.
                if targ = base then Some ''.''
                else if strings_HasPrefix targ (base @ ''/'')
                then Some (drop (length base + 1) targ)
                else None),
       Join = (\<lambda>dir name. dir @ ''/'' @ name),
       ToLower = ascii_ToLower,
       TrimSpace = ascii_TrimSpace \<rparr>"

text \<open>A host on which every file opens and begins with the PNG signature.\<close>

definition png_host :: host where
  "png_host =
     example_host
       \<lparr> Open := (\<lambda>path.
            Inr (Bytes [CHR 0x89, CHR 0x50, CHR 0x4E, CHR 0x47, CHR 0x0D, CHR 0x0A])) \<rparr>"

text \<open>
  A host on which \<open>/proj/a.txt\<close> cannot be opened and every other file holds text.
\<close>

definition locked_host :: host where
  "locked_host =
     example_host
       \<lparr> Open := (\<lambda>path. if path = ''/proj/a.txt'' then Inl ErrPermission
                         else Inr (Bytes ''package main'')) \<rparr>"

section \<open>The content classifier\<close>

subsection \<open>The arithmetic of \<open>float64\<close>\<close>

text \<open>
  A finite \<open>float64\<close> is modelled by the rational number it denotes. An operation gives
  the exact result rounded to the nearest number with a significand of 53 bits, ties going
  to the even significand. Overflow and subnormal numbers are left out: the values computed
  here are counts of at most 512 and quotients of two of them.
\<close>

definition round_half_even :: "rat \<Rightarrow> int" where
  "round_half_even y =
     (let f = \<lfloor>y\<rfloor>; d = y - of_int f
      in if d < 1 / 2 then f
         else if 1 / 2 < d then f + 1
         else if even f then f else f + 1)"

text \<open>The binary exponent of a positive rational: \<open>2 ^ e \<le> x < 2 ^ (e + 1)\<close>.\<close>

definition f64_exponent :: "rat \<Rightarrow> int" where
  "f64_exponent x =
     (case quotient_of x of
        (a, b) \<Rightarrow>
          let e0 = bitlen a - bitlen b
          in if 2 powi e0 \<le> x then e0 else e0 - 1)"

definition f64_round :: "rat \<Rightarrow> rat" where
  "f64_round x =
     (if x = 0 then 0
      else
        let ulp = 2 powi (f64_exponent \<bar>x\<bar> - 52)
        in of_int (round_half_even (x / ulp)) * ulp)"

text \<open>The conversion \<open>float64(n)\<close> of an \<open>int\<close>, the division and the constant \<open>0.3\<close>.\<close>

definition float64 :: "nat \<Rightarrow> rat" where
  "float64 n = f64_round (of_nat n)"

definition f64_div :: "rat \<Rightarrow> rat \<Rightarrow> rat" where
  "f64_div x y = f64_round (x / y)"

definition f64_0_3 :: rat where
  "f64_0_3 = f64_round (3 / 10)"

subsection \<open>\<open>isBinaryContent\<close>\<close>

definition binarySignatures :: "string list" where
  "binarySignatures =
     [[CHR 0x7F, CHR 0x45, CHR 0x4C, CHR 0x46],
      [CHR 0x4D, CHR 0x5A],
      [CHR 0x50, CHR 0x4B, CHR 0x03, CHR 0x04],
      [CHR 0xFF, CHR 0xD8, CHR 0xFF],
      [CHR 0x89, CHR 0x50, CHR 0x4E, CHR 0x47],
      [CHR 0x25, CHR 0x50, CHR 0x44, CHR 0x46],
      [CHR 0x1F, CHR 0x8B]]"

text \<open>
  The inner loop over a signature (lines 382 to 387): \<open>match\<close> stays true while the bytes
  of the content agree with those of the signature. The loop runs only when the signature
  is no longer than the content; the last equation is never reached then.
\<close>

fun signature_matches :: "string \<Rightarrow> string \<Rightarrow> bool" where
  "signature_matches [] content = True"
| "signature_matches (b # sig) (c # content) =
     (if c \<noteq> b then False else signature_matches sig content)"
| "signature_matches (b # sig) [] = False"

text \<open>The loop over the signatures (lines 379 to 392).\<close>

fun signature_scan :: "string list \<Rightarrow> string \<Rightarrow> bool" where
  "signature_scan [] content = False"
| "signature_scan (sig # sigs) content =
     (if length sig \<le> length content \<and> signature_matches sig content then True
      else signature_scan sigs content)"

text \<open>
  The counting loop (lines 399 to 408): \<^term>\<open>None\<close> when it returns \<open>true\<close> at the second
  zero byte, otherwise the final \<open>nonAsciiCount\<close>.
\<close>

fun count_bytes :: "string \<Rightarrow> nat \<Rightarrow> nat \<Rightarrow> nat option" where
  "count_bytes [] nullCount nonAsciiCount = Some nonAsciiCount"
| "count_bytes (c # content) nullCount nonAsciiCount =
     (if of_char c = (0 :: nat) then
        (if 1 < nullCount + 1 then None
         else count_bytes content (nullCount + 1) nonAsciiCount)
      else if (127 :: nat) < of_char c then count_bytes content nullCount (nonAsciiCount + 1)
      else count_bytes content nullCount nonAsciiCount)"

definition isBinaryContent :: "string \<Rightarrow> bool" where
  "isBinaryContent content =
     (if 2 \<le> length content \<and> signature_scan binarySignatures content then True
      else
        (case count_bytes content 0 0 of
           None \<Rightarrow> True
         | Some nonAsciiCount \<Rightarrow>
             if 0 < length content
             then f64_0_3 < f64_div (float64 nonAsciiCount) (float64 (length content))
             else False))"

subsection \<open>The classification as the specification words it\<close>

text \<open>
  The number of zero bytes and of bytes above 127 in a sequence, the test that it begins
  with one of the seven signatures, and the rule of section 4.3: binary when it begins with
  a signature, or holds two or more zero bytes, or is not empty and has more than 30% of
  its bytes above 127. The last definition describes a sequence of printable ASCII bytes
  (\<open>0x20\<close> to \<open>0x7E\<close>) but for exactly one zero byte.
\<close>

definition zero_bytes :: "string \<Rightarrow> nat" where
  "zero_bytes b = length (filter (\<lambda>c. of_char c = (0 :: nat)) b)"

definition high_bytes :: "string \<Rightarrow> nat" where
  "high_bytes b = length (filter (\<lambda>c. (127 :: nat) < of_char c) b)"

definition begins_with_signature :: "string \<Rightarrow> bool" where
  "begins_with_signature b = list_ex (\<lambda>sig. strings_HasPrefix b sig) binarySignatures"

definition spec_binary :: "string \<Rightarrow> bool" where
  "spec_binary b =
     (begins_with_signature b
      \<or> 2 \<le> zero_bytes b
      \<or> (b \<noteq> [] \<and> 3 * length b < 10 * high_bytes b))"

definition printable_but_one_zero :: "string \<Rightarrow> bool" where
  "printable_but_one_zero b =
     (list_all (\<lambda>c. of_char c = (0 :: nat) \<or> ((0x20 :: nat) \<le> of_char c \<and> of_char c \<le> (0x7E :: nat))) b
      \<and> zero_bytes b = 1)"

subsection \<open>\<open>verifyTextContent\<close> and \<open>isTextFile\<close>\<close>

definition textExtensions :: "string \<Rightarrow> bool" where
  "textExtensions ext =
     (ext \<in> set
        [''.txt'', ''.md'', ''.go'', ''.py'', ''.js'',
         ''.html'', ''.css'', ''.json'', ''.xml'', ''.yaml'',
         ''.yml'', ''.sh'', ''.bash'', ''.c'', ''.cpp'',
         ''.h'', ''.hpp'', ''.rs'', ''.ts'', ''.java'',
         ''.rb'', ''.php'', ''.pl'', ''.swift'', ''.kt'',
         ''.sql'', ''.r'', ''.conf'', ''.ini'', ''.csv'',
         ''.tsv'', ''.bat'', ''.ps1'', ''.lua''])"

text \<open>
  \<open>verifyTextContent(path)\<close>: the error of \<open>os.Open\<close> or of \<open>Read\<close> (other than
  \<open>io.EOF\<close>) is returned; otherwise the bytes read, at most 512, are classified.
\<close>

definition verifyTextContent :: "host \<Rightarrow> string \<Rightarrow> io_error + bool" where
  "verifyTextContent h path =
     (case Open h path of
        Inl err \<Rightarrow> Inl err
      | Inr f \<Rightarrow>
          (case f of
             ReadError err \<Rightarrow> Inl err
           | Bytes content \<Rightarrow> Inr (\<not> isBinaryContent (take 512 content))))"

definition isTextFile :: "host \<Rightarrow> string \<Rightarrow> io_error + bool" where
  "isTextFile h path =
     (let ext = ToLower h (filepath_Ext path)
      in if textExtensions ext then verifyTextContent h path
         else verifyTextContent h path)"

section \<open>The ignore set resolver\<close>

definition defaultIgnorePatterns :: "string list" where
  "defaultIgnorePatterns =
     [''.*'', ''node_modules/'', ''target/'', ''dist/'', ''build/'', ''bin/'', ''pkg/'',
      ''.pewc'', ''.git/'']"

datatype error = PewcError io_error | WalkError io_error

text \<open>The loop over the lines of the rules file (lines 203 to 214).\<close>

fun pewc_lines :: "host \<Rightarrow> string list \<Rightarrow> string list \<Rightarrow> string list" where
  "pewc_lines h [] patterns = patterns"
| "pewc_lines h (line0 # lines) patterns =
     (let line = TrimSpace h line0
      in if line = [] \<or> strings_HasPrefix line ''#'' then pewc_lines h lines patterns
         else pewc_lines h lines (patterns @ [line]))"

definition readPewcFile :: "host \<Rightarrow> string \<Rightarrow> error + string list" where
  "readPewcFile h rootDir =
     (let pewcPath = Join h rootDir ''.pewc''
      in case ReadFile h pewcPath of
           Inl err \<Rightarrow> if os_IsNotExist err then Inr [] else Inl (PewcError err)
         | Inr content \<Rightarrow> Inr (pewc_lines h (strings_Split content (CHR 0x0A)) []))"

definition getIgnorePatterns :: "host \<Rightarrow> string \<Rightarrow> bool \<Rightarrow> error + string list" where
  "getIgnorePatterns h rootDir noDefaultIgnores =
     (let patterns = (if \<not> noDefaultIgnores then [] @ defaultIgnorePatterns else [])
      in case readPewcFile h rootDir of
           Inl err \<Rightarrow> Inl err
         | Inr pewcPatterns \<Rightarrow> Inr (patterns @ pewcPatterns))"

text \<open>
  The rules of a \<open>.pewc\<close> file as section 4.2 of the specification words them: the text is
  split into lines, each line is trimmed, the empty lines and those that begin with \<open>#\<close>
  are discarded, and the others are kept in the order of the file.
\<close>

definition spec_rule_lines :: "host \<Rightarrow> string \<Rightarrow> string list" where
  "spec_rule_lines h content =
     filter (\<lambda>line. line \<noteq> [] \<and> \<not> strings_HasPrefix line ''#'')
       (map (TrimSpace h) (strings_Split content (CHR 0x0A)))"

section \<open>The directory walker\<close>

text \<open>
  What \<open>filepath.Walk\<close> finds at a path: an entry on which \<open>os.Lstat\<close> fails, an entry
  that is not a directory, a directory whose names cannot be read, or a directory with its
  entries, in the order in which \<open>readDirNames\<close> returns them. What opening and reading a
  file gives is the answer of the host's \<open>Open\<close> at the path of the file.
\<close>

datatype node =
    LstatFails io_error
  | RegularFile
  | UnreadableDir io_error
  | Directory "(string \<times> node) list"

text \<open>The errors that a \<open>WalkFunc\<close> returns: the sentinel \<open>SkipDir\<close> or a failure.\<close>

datatype walk_error = SkipDir | Failure io_error

fun is_dir :: "node \<Rightarrow> bool" where
  "is_dir (Directory entries) = True"
| "is_dir (UnreadableDir err) = True"
| "is_dir RegularFile = False"
| "is_dir (LstatFails err) = False"

text \<open>
  A \<open>WalkFunc\<close> receives the path, whether the entry is a directory (\<open>info.IsDir()\<close>) and
  the error met on the way to it; the state it threads stands for the variables its closure
  writes.
\<close>

type_synonym 's WalkFunc = "string \<Rightarrow> bool \<Rightarrow> io_error option \<Rightarrow> 's \<Rightarrow> 's \<times> walk_error option"

text \<open>
  \<open>walk\<close> of \<open>path/filepath\<close>: the function is called on the entry; in a directory that
  could be read it is then called on each entry in turn. \<open>SkipDir\<close> returned for a
  directory skips that directory; any other error ends the walk. An entry on which
  \<open>os.Lstat\<close> fails is reported to the function with that error.
\<close>

fun walk :: "(string \<Rightarrow> string \<Rightarrow> string) \<Rightarrow> 's WalkFunc \<Rightarrow> string \<Rightarrow> node \<Rightarrow> 's
               \<Rightarrow> 's \<times> walk_error option"
and walk_names :: "(string \<Rightarrow> string \<Rightarrow> string) \<Rightarrow> 's WalkFunc \<Rightarrow> string
               \<Rightarrow> (string \<times> node) list \<Rightarrow> 's \<Rightarrow> 's \<times> walk_error option"
where
  "walk join walkFn path (LstatFails err) st = walkFn path False (Some err) st"
| "walk join walkFn path RegularFile st = walkFn path False None st"
| "walk join walkFn path (UnreadableDir err) st = walkFn path True (Some err) st"
| "walk join walkFn path (Directory entries) st =
     (case walkFn path True None st of
        (st1, Some err1) \<Rightarrow> (st1, Some err1)
      | (st1, None) \<Rightarrow> walk_names join walkFn path entries st1)"
| "walk_names join walkFn path [] st = (st, None)"
| "walk_names join walkFn path ((name, child) # rest) st =
     (case walk join walkFn (join path name) child st of
        (st1, None) \<Rightarrow> walk_names join walkFn path rest st1
      | (st1, Some err) \<Rightarrow>
          if (case child of
                LstatFails e \<Rightarrow> err \<noteq> SkipDir
              | _ \<Rightarrow> \<not> is_dir child \<or> err \<noteq> SkipDir)
          then (st1, Some err)
          else walk_names join walkFn path rest st1)"

definition filepath_Walk :: "(string \<Rightarrow> string \<Rightarrow> string) \<Rightarrow> string \<Rightarrow> node \<Rightarrow> 's WalkFunc \<Rightarrow> 's
               \<Rightarrow> 's \<times> walk_error option" where
  "filepath_Walk join rootPath tree walkFn st =
     (case walk join walkFn rootPath tree st of
        (st1, Some SkipDir) \<Rightarrow> (st1, None)
      | (st1, err) \<Rightarrow> (st1, err))"

text \<open>
  The closure of \<open>collectTextFiles\<close> (lines 309 to 338). Its state is the list of files
  kept so far and what it has printed: a warning on the error stream for a file that cannot
  be classified, a note on the standard output for a binary file.
\<close>

datatype message = Warning string io_error | SkippingBinary string

record walk_state =
  fileList :: "string list"
  messages :: "message list"

definition collect_visit :: "host \<Rightarrow> string \<Rightarrow> string list \<Rightarrow> walk_state WalkFunc" where
  "collect_visit h rootDir ignorePatterns path info_IsDir err st =
     (case err of
        Some e \<Rightarrow> (st, Some (Failure e))
      | None \<Rightarrow>
          if isPathIgnored h path rootDir ignorePatterns then
            (if info_IsDir then (st, Some SkipDir) else (st, None))
          else if info_IsDir then (st, None)
          else
            (case isTextFile h path of
               Inl e \<Rightarrow> (st\<lparr>messages := messages st @ [Warning path e]\<rparr>, None)
             | Inr isText \<Rightarrow>
                 if isText then (st\<lparr>fileList := fileList st @ [path]\<rparr>, None)
                 else (st\<lparr>messages := messages st @ [SkippingBinary path]\<rparr>, None)))"

text \<open>
  \<open>collectTextFiles(rootDir, ignorePatterns)\<close>, on the tree found at \<open>rootDir\<close>: what was
  printed, and either the error of the walk or the sorted list of the files kept.
\<close>

definition collectTextFiles :: "host \<Rightarrow> string \<Rightarrow> string list \<Rightarrow> node
    \<Rightarrow> message list \<times> (error + string list)" where
  "collectTextFiles h rootDir ignorePatterns tree =
     (case filepath_Walk (Join h) rootDir tree (collect_visit h rootDir ignorePatterns)
             \<lparr>fileList = [], messages = []\<rparr> of
        (st, Some (Failure e)) \<Rightarrow> (messages st, Inl (WalkError e))
      | (st, _) \<Rightarrow> (messages st, Inr (sort (fileList st))))"


text \<open>
  A tree is \<open>listable\<close> when \<open>os.Lstat\<close> succeeds on each of its entries and the names of
  each of its directories can be read.
\<close>

fun listable :: "node \<Rightarrow> bool"
and listable_entries :: "(string \<times> node) list \<Rightarrow> bool" where
  "listable (LstatFails err) = False"
| "listable RegularFile = True"
| "listable (UnreadableDir err) = False"
| "listable (Directory entries) = listable_entries entries"
| "listable_entries [] = True"
| "listable_entries ((name, child) # rest) = (listable child \<and> listable_entries rest)"

text \<open>
  \<open>prune\<close> removes from the directories of a tree the files that cannot be classified:
  those on which \<open>isTextFile\<close> returns an error, because they cannot be opened or read.
\<close>

fun prune :: "(string \<Rightarrow> string \<Rightarrow> string) \<Rightarrow> host \<Rightarrow> string \<Rightarrow> node \<Rightarrow> node"
and prune_entries :: "(string \<Rightarrow> string \<Rightarrow> string) \<Rightarrow> host \<Rightarrow> string \<Rightarrow> (string \<times> node) list
      \<Rightarrow> (string \<times> node) list" where
  "prune join h path (Directory entries) = Directory (prune_entries join h path entries)"
| "prune join h path (LstatFails err) = LstatFails err"
| "prune join h path RegularFile = RegularFile"
| "prune join h path (UnreadableDir err) = UnreadableDir err"
| "prune_entries join h path [] = []"
| "prune_entries join h path ((name, child) # rest) =
     (if child = RegularFile \<and> isl (isTextFile h (join path name))
      then prune_entries join h path rest
      else (name, prune join h (join path name) child) # prune_entries join h path rest)"

text \<open>Two outcomes of a walk agree: the same error, and the same files kept.\<close>

definition same_outcome ::
  "walk_state \<times> walk_error option \<Rightarrow> walk_state \<times> walk_error option \<Rightarrow> bool" where
  "same_outcome a b = (snd a = snd b \<and> fileList (fst a) = fileList (fst b))"

text \<open>
  The files that section 4.4 of the specification keeps, written from its words and not
  from the walk: a file is kept when it is not ignored, no directory above it (up to the
  root) is ignored, and the content classifier succeeds on it and finds text. A file on
  which the classifier fails is left out, and so is everything below a directory that
  cannot be read.
\<close>

fun eligible_files :: "host \<Rightarrow> string \<Rightarrow> string list \<Rightarrow> string \<Rightarrow> node \<Rightarrow> string list"
and eligible_entries :: "host \<Rightarrow> string \<Rightarrow> string list \<Rightarrow> string \<Rightarrow> (string \<times> node) list
      \<Rightarrow> string list" where
  "eligible_files h rootDir patterns path RegularFile =
     (if \<not> isPathIgnored h path rootDir patterns \<and> isTextFile h path = Inr True
      then [path] else [])"
| "eligible_files h rootDir patterns path (Directory entries) =
     (if isPathIgnored h path rootDir patterns then []
      else eligible_entries h rootDir patterns path entries)"
| "eligible_files h rootDir patterns path (LstatFails err) = []"
| "eligible_files h rootDir patterns path (UnreadableDir err) = []"
| "eligible_entries h rootDir patterns path [] = []"
| "eligible_entries h rootDir patterns path ((name, child) # rest) =
     eligible_files h rootDir patterns (Join h path name) child
     @ eligible_entries h rootDir patterns path rest"

text \<open>
  The outcome of a walk started in state \<open>st\<close> adds \<open>files\<close> to the files kept, and ends
  without an error, or with \<open>SkipDir\<close> where that is allowed.
\<close>

definition walk_adds ::
  "walk_state \<times> walk_error option \<Rightarrow> walk_state \<Rightarrow> string list \<Rightarrow> bool \<Rightarrow> bool" where
  "walk_adds out st files may_skip =
     (fileList (fst out) = fileList st @ files
      \<and> (snd out = None \<or> (may_skip \<and> snd out = Some SkipDir)))"

section \<open>Properties of the pattern matcher\<close>

lemma Split_no_sep: "sep \<notin> set s \<Longrightarrow> strings_Split s sep = [s]"
  by (induction s) auto

lemma regexPattern_hidden:
  "regexPattern ''.*'' = [CHR ''^'', backslash, CHR ''.'', CHR ''.'', CHR ''*'']"
  by (simp add: regexPattern_def strings_HasPrefix_def strings_HasSuffix_def backslash_def)

lemma scanChunk_hidden:
  "scanChunk [CHR ''^'', backslash, CHR ''.'', CHR ''.'', CHR ''*'']
     = (False, [CHR ''^'', backslash, CHR ''.'', CHR ''.''], ''*'')"
  by (simp add: scanChunk_def backslash_def)

lemma Match_hidden_dotted:
  "\<not> filepath_Match [CHR ''^'', backslash, CHR ''.'', CHR ''.'', CHR ''*''] (CHR ''.'' # cs)"
  by (subst filepath_Match.simps) (simp add: scanChunk_hidden, simp add: backslash_def)

lemma scan_end_no_star: "CHR ''*'' \<notin> set q \<Longrightarrow> scan_end b q = length q"
  by (induction b q rule: scan_end.induct) (auto simp: backslash_def split: list.splits)

lemma scanChunk_no_star: "CHR ''*'' \<notin> set q \<Longrightarrow> scanChunk q = (False, q, [])"
proof -
  assume a: "CHR ''*'' \<notin> set q"
  then have "dropWhile (\<lambda>c. c = CHR ''*'') q = q"
    by (cases q) auto
  moreover have "\<not> (q \<noteq> [] \<and> hd q = CHR ''*'')"
    using a by (cases q) auto
  ultimately show ?thesis
    by (simp add: scanChunk_def scan_end_no_star [OF a] Let_def)
qed

lemma Match_no_star:
  assumes "CHR ''*'' \<notin> set q"
  shows "filepath_Match q p = (case matchChunk False q p of Matched t \<Rightarrow> t = [] | _ \<Rightarrow> False)"
proof (cases "q = []")
  case True
  then show ?thesis by (subst filepath_Match.simps) auto
next
  case False
  have e: "filepath_Match [] [] = True" by (subst filepath_Match.simps) simp
  show ?thesis
    by (subst filepath_Match.simps)
       (simp add: False scanChunk_no_star [OF assms] e split: chunk_result.splits)
qed

lemma matchChunk_literal:
  assumes "CHR ''['' \<notin> set q" "CHR ''?'' \<notin> set q" "backslash \<notin> set q"
  shows "matchChunk failed q s =
     (if \<not> failed \<and> take (length q) s = q then Matched (drop (length q) s) else NoMatch)"
  using assms
proof (induction q arbitrary: failed s)
  case Nil
  then show ?case by simp
next
  case (Cons c q)
  then show ?case
    by (cases s) (auto simp: Let_def)
qed

lemma Match_literal:
  assumes "CHR ''*'' \<notin> set q" "CHR ''['' \<notin> set q" "CHR ''?'' \<notin> set q" "backslash \<notin> set q"
  shows "filepath_Match q p = (q = p)"
proof -
  have "(take (length q) p = q \<and> drop (length q) p = []) = (q = p)"
    by (metis append_take_drop_id append_Nil2 drop_all order_refl take_all)
  then show ?thesis
    by (auto simp add: Match_no_star [OF assms(1)] matchChunk_literal [OF assms(2,3,4)])
qed

lemma trim_subset: "set (strings_TrimSuffix q suf) \<subseteq> set q"
  by (auto simp: strings_TrimSuffix_def dest: in_set_takeD)

lemma matchesGitIgnorePattern_unfold:
  "matchesGitIgnorePattern h p q =
     ((strings_HasSuffix q ''/'' \<longrightarrow> strings_HasSuffix p ''/'' \<or> isDirectory h p)
      \<and> (if CHR ''*'' \<in> set (strings_TrimSuffix q ''/'')
         then filepath_Match (regexPattern (strings_TrimSuffix q ''/'')) p
              \<or> list_ex (filepath_Match (regexPattern (strings_TrimSuffix q ''/'')))
                   (strings_Split p (CHR ''/''))
         else strings_TrimSuffix q ''/'' = filepath_Base p
              \<or> strings_TrimSuffix q ''/'' = p
              \<or> filepath_Match (strings_TrimSuffix q ''/'') p))"
proof -
  have e: "(if strings_HasSuffix q ''/'' then strings_TrimSuffix q ''/'' else q)
             = strings_TrimSuffix q ''/''"
    by (simp add: strings_TrimSuffix_def)
  have t: "filepath_ToSlash q = q"
    by (simp add: filepath_ToSlash_def Separator_def)
  show ?thesis
    unfolding matchesGitIgnorePattern_def t Let_def strings_Contains_def e
    by auto
qed



text \<open>
  Claim C1. The claim: for the pattern \<open>*.log\<close> the matcher answers true on \<open>a.log\<close>,
  \<open>dir/b.log\<close> and \<open>dir/sub/c.log\<close> and false on \<open>a.logx\<close>. On the code the pattern becomes
  \<open>.*\.log$\<close>, which \<open>filepath.Match\<close> reads as a shell pattern: a literal dot, a star,
  an escaped dot and the literal bytes \<open>log$\<close>. None of the four paths, nor any of their
  segments, begins with a dot, so the matcher answers false on all four, whatever the
  file system holds.
\<close>

theorem star_log_pattern_on_code:
  "\<not> matchesGitIgnorePattern h ''a.log'' ''*.log''
   \<and> \<not> matchesGitIgnorePattern h ''dir/b.log'' ''*.log''
   \<and> \<not> matchesGitIgnorePattern h ''dir/sub/c.log'' ''*.log''
   \<and> \<not> matchesGitIgnorePattern h ''a.logx'' ''*.log''"
  by (simp add: matchesGitIgnorePattern_def filepath_ToSlash_def Separator_def
      strings_HasSuffix_def strings_HasPrefix_def strings_Contains_def regexPattern_def
      filepath_Match.simps scanChunk_def backslash_def Let_def)

text \<open>
  Claim C2. The built-in pattern \<open>.*\<close> matches no dotted name: for every path of one
  segment (no \<open>/\<close>) whose first byte is a dot, \<open>matchesGitIgnorePattern\<close> answers false
  on the pattern \<open>.*\<close>, whatever the file system holds. (The pattern is turned into
  \<open>^\..*\<close>, whose first byte \<open>^\<close> is a literal for \<open>filepath.Match\<close>.) What excludes
  hidden entries is the other built-in patterns: \<open>.pewc\<close> matches the rules file, and
  \<open>.git/\<close> matches \<open>.git\<close> when \<open>os.Stat\<close> finds a directory there.
\<close>

theorem hidden_pattern_never_matches_dotted_name:
  assumes "path \<noteq> []" and "hd path = CHR ''.''" and "CHR ''/'' \<notin> set path"
  shows "\<not> matchesGitIgnorePattern h path ''.*''
    \<and> matchesGitIgnorePattern h ''.pewc'' ''.pewc''
    \<and> (isDirectory h ''.git'' \<longrightarrow> matchesGitIgnorePattern h ''.git'' ''.git/'')"
proof -
  obtain cs where p: "path = CHR ''.'' # cs"
    using assms(1,2) by (cases path) auto
  have "strings_Split path (CHR ''/'') = [path]"
    using assms(3) by (rule Split_no_sep)
  then have "\<not> matchesGitIgnorePattern h path ''.*''"
    using Match_hidden_dotted [of cs]
    by (simp add: matchesGitIgnorePattern_def filepath_ToSlash_def Separator_def
        strings_HasSuffix_def strings_Contains_def regexPattern_hidden p Let_def)
  moreover have "matchesGitIgnorePattern h ''.pewc'' ''.pewc''"
    by (simp add: matchesGitIgnorePattern_unfold strings_HasSuffix_def strings_TrimSuffix_def)
  moreover have "matchesGitIgnorePattern h ''.git'' ''.git/''" if "isDirectory h ''.git''"
    using that
    by (simp add: matchesGitIgnorePattern_unfold strings_HasSuffix_def strings_TrimSuffix_def)
  ultimately show ?thesis by blast
qed

theorem hidden_pattern_never_matches_dotted_name_witness:
  "''.git'' \<noteq> [] \<and> hd ''.git'' = CHR ''.'' \<and> CHR ''/'' \<notin> set ''.git''
   \<and> \<not> matchesGitIgnorePattern example_host ''.git'' ''.*''
   \<and> \<not> matchesGitIgnorePattern example_host ''.env'' ''.*''"
  using hidden_pattern_never_matches_dotted_name [of "''.git''" example_host]
    hidden_pattern_never_matches_dotted_name [of "''.env''" example_host]
  by simp

text \<open>
  Claim C5. A directory-only pattern (its text ends with \<open>/\<close>) never matches a path that
  is not a directory: when the matcher's directory flag is false, that is, the path does not
  end with \<open>/\<close> and \<open>os.Stat\<close> finds no directory at it, the matcher answers false.
\<close>

theorem directory_only_pattern_never_matches_file:
  "strings_HasSuffix d ''/'' \<Longrightarrow> \<not> (strings_HasSuffix p ''/'' \<or> isDirectory h p)
     \<Longrightarrow> \<not> matchesGitIgnorePattern h p d"
  by (simp add: matchesGitIgnorePattern_def filepath_ToSlash_def Separator_def Let_def)

theorem directory_only_pattern_never_matches_file_witness:
  "strings_HasSuffix ''build/'' ''/''
   \<and> \<not> (strings_HasSuffix ''build'' ''/'' \<or> isDirectory example_host ''build'')
   \<and> \<not> matchesGitIgnorePattern example_host ''build'' ''build/''"
proof -
  have a: "strings_HasSuffix ''build/'' ''/''"
    by (simp add: strings_HasSuffix_def)
  have b: "\<not> (strings_HasSuffix ''build'' ''/'' \<or> isDirectory example_host ''build'')"
    by (simp add: strings_HasSuffix_def isDirectory_def example_host_def)
  from a b directory_only_pattern_never_matches_file [OF a b] show ?thesis
    by simp
qed

text \<open>
  Claim C3. The claim: every pattern holding a wildcard, \<open>*\<close> or \<open>?\<close>, also one with \<open>?\<close>
  and no \<open>*\<close>, goes through the wildcard procedure (full path, then each segment). On the
  code the procedure is entered only when the pattern holds a \<open>*\<close> (line 256), although
  its body translates \<open>?\<close> too (line 259). The pattern \<open>?.c\<close> falls to the literal
  branch, where only the full path is tried: on \<open>dir/a.c\<close> the matcher answers false,
  though the segment \<open>a.c\<close> fits the glob, so the wildcard procedure answers true.
\<close>

theorem question_mark_pattern_misses_segments:
  "\<not> matchesGitIgnorePattern h ''dir/a.c'' ''?.c'' \<and> spec_wildcard_match ''?.c'' ''dir/a.c''"
  by (simp add: matchesGitIgnorePattern_def filepath_ToSlash_def Separator_def
      strings_HasSuffix_def strings_HasPrefix_def strings_Contains_def spec_wildcard_match_def
      filepath_Match.simps scanChunk_def backslash_def Let_def filepath_Base_def
      utf8_DecodeRuneInString_def)

text \<open>
  Claim C4, as stated: for every pattern with neither \<open>*\<close> nor \<open>?\<close>, the matcher answers
  true exactly when the pattern is the basename of the path or the path itself, so that a
  pattern such as \<open>[a]\<close> matches nothing else. It fails: the literal branch ends with a
  call of \<open>filepath.Match\<close>, for which \<open>[a]\<close> is a character class, and the pattern
  \<open>[a]\<close> matches the path \<open>a\<close>.
\<close>

theorem bracket_pattern_matches_beyond_equality:
  "CHR ''*'' \<notin> set ''[a]'' \<and> CHR ''?'' \<notin> set ''[a]''
   \<and> matchesGitIgnorePattern example_host ''a'' ''[a]''
   \<and> ''[a]'' \<noteq> filepath_Base ''a'' \<and> ''[a]'' \<noteq> ''a''"
  by (simp add: matchesGitIgnorePattern_def filepath_ToSlash_def Separator_def
      strings_HasSuffix_def strings_HasPrefix_def strings_Contains_def
      filepath_Match.simps scanChunk_def backslash_def Let_def filepath_Base_def
      utf8_DecodeRuneInString_def class_ranges.simps getEsc_def RuneError_def)

text \<open>
  Claim C4, amended. For every pattern \<open>q\<close> holding none of \<open>*\<close>, \<open>?\<close>, \<open>[\<close> and the
  backslash, and every path \<open>p\<close>: with \<open>q'\<close> the pattern without its trailing \<open>/\<close> (if it has
  one), the matcher answers true exactly when \<open>q'\<close> is the basename of \<open>p\<close> or \<open>p\<close> itself
  and, for a pattern that ends with \<open>/\<close>, the path is a directory (it ends with \<open>/\<close> or
  \<open>os.Stat\<close> finds a directory).
\<close>

theorem literal_pattern_matches_by_equality:
  assumes "CHR ''*'' \<notin> set q" "CHR ''?'' \<notin> set q" "CHR ''['' \<notin> set q" "backslash \<notin> set q"
  shows "matchesGitIgnorePattern h p q \<longleftrightarrow>
     (strings_HasSuffix q ''/'' \<longrightarrow> strings_HasSuffix p ''/'' \<or> isDirectory h p)
     \<and> (strings_TrimSuffix q ''/'' = filepath_Base p \<or> strings_TrimSuffix q ''/'' = p)"
proof -
  define q' where "q' = strings_TrimSuffix q ''/''"
  have sub: "set q' \<subseteq> set q" unfolding q'_def by (rule trim_subset)
  have m: "filepath_Match q' p = (q' = p)"
    using sub assms by (intro Match_literal) auto
  have ns: "CHR ''*'' \<notin> set q'" using sub assms by auto
  show ?thesis
    unfolding matchesGitIgnorePattern_unfold q'_def [symmetric]
    using ns m by auto
qed

theorem literal_pattern_matches_by_equality_witness:
  "CHR ''*'' \<notin> set ''main.go'' \<and> CHR ''?'' \<notin> set ''main.go''
   \<and> CHR ''['' \<notin> set ''main.go'' \<and> backslash \<notin> set ''main.go''
   \<and> matchesGitIgnorePattern example_host ''src/main.go'' ''main.go''
   \<and> \<not> matchesGitIgnorePattern example_host ''src/main.go'' ''main''"
proof -
  have a: "CHR ''*'' \<notin> set ''main.go''" "CHR ''?'' \<notin> set ''main.go''"
    "CHR ''['' \<notin> set ''main.go''" "backslash \<notin> set ''main.go''"
    by (simp_all add: backslash_def)
  have b: "CHR ''*'' \<notin> set ''main''" "CHR ''?'' \<notin> set ''main''"
    "CHR ''['' \<notin> set ''main''" "backslash \<notin> set ''main''"
    by (simp_all add: backslash_def)
  have c: "filepath_Base ''src/main.go'' = ''main.go''"
    by (simp add: filepath_Base_def Separator_def)
  show ?thesis
    using a literal_pattern_matches_by_equality [OF a, of example_host "''src/main.go''"]
      literal_pattern_matches_by_equality [OF b, of example_host "''src/main.go''"]
    by (simp add: c strings_HasSuffix_def strings_TrimSuffix_def)
qed



section \<open>Properties of the content classifier\<close>

subsection \<open>Rounding\<close>

text \<open>
  The exponent is the one of the binary representation, and the constant \<open>0.3\<close> is the
  number \<open>0x3FD3333333333333\<close> of IEEE 754.
\<close>

lemma bitlen_bounds_rat:
  assumes "0 < a"
  shows "(2::rat) powi (bitlen a - 1) \<le> of_int a" and "of_int a < (2::rat) powi bitlen a"
proof -
  have ge: "1 \<le> bitlen a"
    using assms by (simp add: bitlen_alt_def)
  have "(2::int) ^ nat (bitlen a - 1) \<le> a" and "a < (2::int) ^ nat (bitlen a)"
    using bitlen_bounds [OF assms] by simp_all
  then have "(of_int ((2::int) ^ nat (bitlen a - 1)) :: rat) \<le> of_int a"
    and "(of_int a :: rat) < of_int ((2::int) ^ nat (bitlen a))"
    by (simp_all only: of_int_le_iff of_int_less_iff)
  then show "(2::rat) powi (bitlen a - 1) \<le> of_int a" and "of_int a < (2::rat) powi bitlen a"
    using ge by (simp_all add: power_int_def)
qed

lemma f64_exponent_bounds:
  assumes "0 < x"
  shows "2 powi f64_exponent x \<le> x \<and> x < 2 powi (f64_exponent x + 1)"
proof -
  obtain a b where q: "quotient_of x = (a, b)" by (cases "quotient_of x")
  then have b: "0 < b" and x: "x = of_int a / of_int b"
    by (simp_all add: quotient_of_denom_pos quotient_of_div)
  from assms b x have a: "0 < a"
    by (simp add: zero_less_divide_iff)
  define e0 where "e0 = bitlen a - bitlen b"
  have bpos: "(0::rat) < of_int b" using b by simp
  note A = bitlen_bounds_rat [OF a] and B = bitlen_bounds_rat [OF b]
  have "x < 2 powi bitlen a / of_int b"
    unfolding x using A(2) bpos by (simp add: divide_strict_right_mono)
  also have "\<dots> \<le> 2 powi bitlen a / 2 powi (bitlen b - 1)"
    using B(1) bpos by (intro divide_left_mono) (simp_all add: zero_less_mult_iff)
  also have "\<dots> = 2 powi (e0 + 1)"
    by (simp add: e0_def power_int_diff [symmetric] algebra_simps)
  finally have hi: "x < 2 powi (e0 + 1)" .
  have "2 powi (e0 - 1) = 2 powi (bitlen a - 1) / (2::rat) powi bitlen b"
    by (simp add: e0_def power_int_diff [symmetric] algebra_simps)
  also have "\<dots> \<le> of_int a / 2 powi bitlen b"
    using A(1) by (intro divide_right_mono) simp_all
  also have "\<dots> \<le> of_int a / of_int b"
    using B(2) a bpos by (intro divide_left_mono) (simp_all add: zero_less_mult_iff)
  finally have lo: "2 powi (e0 - 1) \<le> x"
    by (simp add: x)
  show ?thesis
  proof (cases "2 powi e0 \<le> x")
    case True
    with hi show ?thesis
      by (simp add: f64_exponent_def q e0_def [symmetric] Let_def)
  next
    case False
    with lo show ?thesis
      by (simp add: f64_exponent_def q e0_def [symmetric] Let_def)
  qed
qed

lemma f64_0_3_value: "f64_0_3 = 5404319552844595 / 2 ^ 54"
  unfolding f64_0_3_def by code_simp

lemma round_half_even_error: "\<bar>of_int (round_half_even y) - y\<bar> \<le> 1 / 2"
proof -
  have "of_int \<lfloor>y\<rfloor> \<le> y" "y < of_int \<lfloor>y\<rfloor> + 1"
    by linarith+
  then show ?thesis
    by (auto simp: round_half_even_def Let_def)
qed

lemma round_half_even_int: "round_half_even (of_int k) = k"
  by (simp add: round_half_even_def)

lemma bitlen_mono: "a \<le> b \<Longrightarrow> bitlen a \<le> bitlen b"
  by (simp add: bitlen_def floorlog_mono nat_mono)

lemma f64_exponent_le_0:
  assumes "0 < x" "x \<le> 1"
  shows "f64_exponent x \<le> 0"
proof -
  obtain a b where q: "quotient_of x = (a, b)" by (cases "quotient_of x")
  then have b: "0 < b" and x: "x = of_int a / of_int b"
    by (simp_all add: quotient_of_denom_pos quotient_of_div)
  from assms(2) b x have "a \<le> b"
    by (simp add: divide_le_eq_1)
  then have "bitlen a - bitlen b \<le> 0"
    using bitlen_mono [of a b] by simp
  then show ?thesis
    by (auto simp: f64_exponent_def q Let_def)
qed

lemma f64_round_error:
  assumes "0 < x" "x \<le> 1"
  shows "\<bar>f64_round x - x\<bar> \<le> 1 / 2 ^ 53"
proof -
  define ulp :: rat where "ulp = 2 powi (f64_exponent \<bar>x\<bar> - 52)"
  have pos: "0 < ulp" by (simp add: ulp_def)
  have "f64_exponent \<bar>x\<bar> - 52 \<le> - 52"
    using f64_exponent_le_0 [OF assms] assms(1) by simp
  then have "ulp \<le> 2 powi (- 52)"
    unfolding ulp_def by (intro power_int_increasing) simp_all
  then have small: "ulp \<le> 1 / 2 ^ 52"
    by (simp add: power_int_minus_divide)
  have r: "f64_round x = of_int (round_half_even (x / ulp)) * ulp"
    using assms(1) by (simp add: f64_round_def ulp_def Let_def)
  have "f64_round x - x = (of_int (round_half_even (x / ulp)) - x / ulp) * ulp"
    using pos by (simp add: r left_diff_distrib)
  then have "\<bar>f64_round x - x\<bar> = \<bar>of_int (round_half_even (x / ulp)) - x / ulp\<bar> * ulp"
    using pos by (simp add: abs_mult)
  also have "\<dots> \<le> (1 / 2) * ulp"
    using round_half_even_error [of "x / ulp"] pos by (intro mult_right_mono) simp_all
  also have "\<dots> \<le> (1 / 2) * (1 / 2 ^ 52)"
    using small by simp
  finally show ?thesis by simp
qed

lemma f64_exponent_nat:
  assumes "0 < k"
  shows "f64_exponent (of_nat k) = bitlen (int k) - 1"
proof -
  have q: "quotient_of (of_nat k :: rat) = (int k, 1)"
    using quotient_of_int [of "int k"] by simp
  have b1: "bitlen 1 = 1"
    by (simp add: bitlen_def floorlog_def)
  have ge: "1 \<le> bitlen (int k)"
    using assms by (simp add: bitlen_alt_def)
  have "(2::int) ^ nat (bitlen (int k) - 1) \<le> int k"
    using bitlen_bounds [of "int k"] assms by simp
  then have "(of_int ((2::int) ^ nat (bitlen (int k) - 1)) :: rat) \<le> of_int (int k)"
    by (simp only: of_int_le_iff)
  then have "(2::rat) powi (bitlen (int k) - 1) \<le> of_nat k"
    using ge by (simp add: power_int_def)
  then show ?thesis
    by (simp add: f64_exponent_def q b1 Let_def)
qed

lemma float64_exact:
  assumes "k < 2 ^ 53"
  shows "float64 k = of_nat k"
proof (cases "k = 0")
  case True
  then show ?thesis by (simp add: float64_def f64_round_def)
next
  case False
  define e where "e = bitlen (int k) - 1"
  have ex: "f64_exponent (of_nat k) = e"
    using False by (simp add: f64_exponent_nat e_def)
  have "bitlen (int k) \<le> 53"
    using assms by (simp add: bitlen_le_iff_power)
  then have e: "e \<le> 52" by (simp add: e_def)
  define m :: nat where "m = nat (52 - e)"
  have ulp: "(2::rat) powi (e - 52) = 1 / 2 ^ m"
    using e by (simp add: power_int_def m_def field_simps) 
  have "of_nat k / (1 / 2 ^ m) = (of_int (int (k * 2 ^ m)) :: rat)"
    by simp
  then have "round_half_even (of_nat k / (1 / 2 ^ m)) = int (k * 2 ^ m)"
    by (simp only: round_half_even_int)
  then show ?thesis
    using False by (simp add: float64_def f64_round_def ex ulp Let_def)
qed

lemma abs_diff_bounds: "\<bar>a - b\<bar> \<le> e \<Longrightarrow> b - e \<le> a \<and> a \<le> b + (e::rat)"
  by linarith

lemma f64_threshold:
  assumes "0 < n" "n \<le> 512" "k \<le> n"
  shows "f64_0_3 < f64_div (float64 k) (float64 n) \<longleftrightarrow> 3 * n < 10 * k"
proof -
  have kn: "float64 k = of_nat k" "float64 n = of_nat n"
    using assms by (simp_all add: float64_exact)
  define x :: rat where "x = of_nat k / of_nat n"
  have d: "f64_div (float64 k) (float64 n) = f64_round x"
    by (simp add: f64_div_def kn x_def)
  define eps :: rat where "eps = 1 / 2 ^ 53"
  have eps: "eps < 1 / 10240" by (simp add: eps_def)
  have "\<bar>f64_0_3 - 3 / 10\<bar> \<le> eps"
    unfolding f64_0_3_def eps_def by (rule f64_round_error) simp_all
  then have c: "3 / 10 - eps \<le> f64_0_3" "f64_0_3 \<le> 3 / 10 + eps"
    by (simp_all add: abs_diff_bounds)
  have npos: "(0::rat) < of_nat n" using assms(1) by simp
  have nle: "(of_nat n :: rat) \<le> 512" using assms(2) by simp
  consider (gt) "3 * n < 10 * k" | (eq) "3 * n = 10 * k" | (lt) "10 * k < 3 * n"
    by linarith
  then show ?thesis
  proof cases
    case gt
    then have "3 * n + 1 \<le> 10 * k" by simp
    then have "(of_nat (3 * n + 1) :: rat) \<le> of_nat (10 * k)"
      by (simp only: of_nat_le_iff)
    then have "3 * of_nat n + 1 \<le> 10 * (of_nat k :: rat)" by simp
    then have "(3 * of_nat n + 1) / (10 * of_nat n) \<le> 10 * (of_nat k :: rat) / (10 * of_nat n)"
      using npos by (intro divide_right_mono) simp_all
    moreover have "(3 * of_nat n + 1) / (10 * of_nat n) = 3 / 10 + 1 / (10 * (of_nat n :: rat))"
      using npos by (simp add: field_simps)
    moreover have "10 * (of_nat k :: rat) / (10 * of_nat n) = x"
      by (simp add: x_def)
    ultimately have "3 / 10 + 1 / (10 * of_nat n) \<le> x"
      by simp
    moreover have "1 / 5120 \<le> 1 / (10 * (of_nat n :: rat))"
      using npos nle by (simp add: field_simps)
    ultimately have lo: "3 / 10 + 1 / 5120 \<le> x" by linarith
    have "x \<le> 1" using assms(3) npos by (simp add: x_def)
    moreover have "0 < x" using lo by linarith
    ultimately have "\<bar>f64_round x - x\<bar> \<le> eps"
      unfolding eps_def by (intro f64_round_error)
    then have "x - eps \<le> f64_round x"
      by (simp add: abs_diff_bounds)
    with lo c eps have "f64_0_3 < f64_round x" by linarith
    with gt d show ?thesis by simp
  next
    case eq
    then have "(of_nat (3 * n) :: rat) = of_nat (10 * k)" by (simp only:)
    then have "x = 3 / 10"
      using npos by (simp add: x_def field_simps)
    with eq d show ?thesis by (simp add: f64_0_3_def)
  next
    case lt
    show ?thesis
    proof (cases "k = 0")
      case True
      then have "f64_round x = 0" by (simp add: x_def f64_round_def)
      moreover have "0 < f64_0_3" using c eps by linarith
      ultimately show ?thesis using lt d by simp
    next
      case False
      from lt have "10 * k + 1 \<le> 3 * n" by simp
      then have "(of_nat (10 * k + 1) :: rat) \<le> of_nat (3 * n)"
        by (simp only: of_nat_le_iff)
      then have "10 * (of_nat k :: rat) + 1 \<le> 3 * of_nat n" by simp
      then have "10 * (of_nat k :: rat) \<le> 3 * of_nat n - 1" by simp
      then have "10 * (of_nat k :: rat) / (10 * of_nat n) \<le> (3 * of_nat n - 1) / (10 * of_nat n)"
        using npos by (intro divide_right_mono) simp_all
      moreover have "(3 * of_nat n - 1) / (10 * of_nat n) = 3 / 10 - 1 / (10 * (of_nat n :: rat))"
        using npos by (simp add: field_simps)
      moreover have "10 * (of_nat k :: rat) / (10 * of_nat n) = x"
        by (simp add: x_def)
      ultimately have "x \<le> 3 / 10 - 1 / (10 * of_nat n)"
        by simp
      moreover have "1 / 5120 \<le> 1 / (10 * (of_nat n :: rat))"
        using npos nle by (simp add: field_simps)
      ultimately have hi: "x \<le> 3 / 10 - 1 / 5120" by linarith
      have "0 < x" using False npos by (simp add: x_def)
      moreover have "x \<le> 1" using hi by linarith
      ultimately have "\<bar>f64_round x - x\<bar> \<le> eps"
        unfolding eps_def by (intro f64_round_error)
      then have "f64_round x \<le> x + eps"
        by (simp add: abs_diff_bounds)
      with hi c eps have "f64_round x < f64_0_3" by linarith
      with lt d show ?thesis by simp
    qed
  qed
qed


subsection \<open>The byte loops\<close>

lemma signature_matches_prefix:
  "length sig \<le> length content \<Longrightarrow>
     signature_matches sig content = (take (length sig) content = sig)"
  by (induction sig content rule: signature_matches.induct) auto

lemma signature_scan_prefix:
  "signature_scan sigs content = list_ex (\<lambda>sig. strings_HasPrefix content sig) sigs"
  by (induction sigs) (auto simp: strings_HasPrefix_def signature_matches_prefix)

lemma signature_needs_two_bytes: "begins_with_signature b \<Longrightarrow> 2 \<le> length b"
  by (auto simp: begins_with_signature_def binarySignatures_def strings_HasPrefix_def)

lemma count_bytes_counts:
  "nullCount \<le> 1 \<Longrightarrow>
     count_bytes content nullCount nonAsciiCount =
       (if 2 \<le> nullCount + zero_bytes content then None
        else Some (nonAsciiCount + high_bytes content))"
  by (induction content arbitrary: nullCount nonAsciiCount)
     (auto simp: zero_bytes_def high_bytes_def)

lemma high_bytes_le: "high_bytes b \<le> length b"
  by (simp add: high_bytes_def)

lemma isBinaryContent_spec:
  assumes "length b \<le> 512"
  shows "isBinaryContent b \<longleftrightarrow> spec_binary b"
proof (cases "begins_with_signature b")
  case True
  then show ?thesis
    using signature_needs_two_bytes [OF True]
    by (simp add: isBinaryContent_def spec_binary_def signature_scan_prefix
        begins_with_signature_def)
next
  case nosig: False
  show ?thesis
  proof (cases "2 \<le> zero_bytes b")
    case True
    with nosig show ?thesis
      by (simp add: isBinaryContent_def spec_binary_def signature_scan_prefix
          begins_with_signature_def count_bytes_counts)
  next
    case nz: False
    show ?thesis
    proof (cases "b = []")
      case True
      with nosig nz show ?thesis
        by (simp add: isBinaryContent_def spec_binary_def zero_bytes_def)
    next
      case False
      then have "0 < length b" by simp
      from f64_threshold [OF this assms high_bytes_le] nosig nz False
      show ?thesis
        by (simp add: isBinaryContent_def spec_binary_def signature_scan_prefix
            begins_with_signature_def [symmetric] count_bytes_counts)
    qed
  qed
qed

lemma printable_no_high: "printable_but_one_zero b \<Longrightarrow> high_bytes b = 0"
proof -
  have "list_all (\<lambda>c. of_char c = (0 :: nat)
            \<or> ((0x20 :: nat) \<le> of_char c \<and> of_char c \<le> (0x7E :: nat))) s
          \<Longrightarrow> high_bytes s = 0" for s
    by (induction s) (auto simp: high_bytes_def)
  then show "printable_but_one_zero b \<Longrightarrow> high_bytes b = 0"
    by (simp add: printable_but_one_zero_def)
qed

text \<open>
  Claim C6, as stated: a sequence of at most 512 bytes is classified as binary exactly
  when it begins with one of the seven signatures, or holds two or more zero bytes, or is
  not empty and has more than 30% of its bytes above 127; in particular every sequence of
  printable ASCII bytes with exactly one zero byte is text. The particular case fails: the
  signatures \<open>MZ\<close> and \<open>%PDF\<close> are printable ASCII, and \<open>MZ\<close> followed by a zero byte
  is classified as binary.
\<close>

theorem printable_signature_is_binary:
  "length (''MZ'' @ [CHR 0x00]) \<le> 512
   \<and> printable_but_one_zero (''MZ'' @ [CHR 0x00])
   \<and> isBinaryContent (''MZ'' @ [CHR 0x00])"
  by (simp add: printable_but_one_zero_def zero_bytes_def isBinaryContent_def
      binarySignatures_def)

text \<open>
  Claim C6, amended. For every sequence \<open>b\<close> of at most 512 bytes, \<open>isBinaryContent\<close>
  answers true exactly when \<open>b\<close> begins with one of the seven signatures, or holds two or
  more zero bytes, or is not empty and more than 30% of its bytes are above 127 (the
  comparison is the one of \<open>float64\<close>, which on these sizes agrees with the exact one).
  The empty sequence is text, and so is every sequence of printable ASCII bytes with
  exactly one zero byte that does not begin with a signature.
\<close>

theorem content_classification:
  assumes "length b \<le> 512"
  shows "(isBinaryContent b \<longleftrightarrow> spec_binary b)
    \<and> \<not> isBinaryContent []
    \<and> (printable_but_one_zero b \<and> \<not> begins_with_signature b \<longrightarrow> \<not> isBinaryContent b)"
proof -
  have a: "isBinaryContent b \<longleftrightarrow> spec_binary b"
    using assms by (rule isBinaryContent_spec)
  have e: "\<not> isBinaryContent []"
    by (simp add: isBinaryContent_def)
  have p: "\<not> isBinaryContent b" if "printable_but_one_zero b" "\<not> begins_with_signature b"
    using that printable_no_high [OF that(1)]
    by (simp add: a spec_binary_def printable_but_one_zero_def)
  from a e p show ?thesis by blast
qed

theorem content_classification_witness:
  "length (''a'' @ [CHR 0x00] @ ''b'') \<le> 512
   \<and> printable_but_one_zero (''a'' @ [CHR 0x00] @ ''b'')
   \<and> \<not> begins_with_signature (''a'' @ [CHR 0x00] @ ''b'')
   \<and> \<not> isBinaryContent (''a'' @ [CHR 0x00] @ ''b'')
   \<and> \<not> spec_binary (''a'' @ [CHR 0x00] @ ''b'')"
proof -
  let ?b = "''a'' @ [CHR 0x00] @ ''b''"
  have l: "length ?b \<le> 512" by simp
  have p: "printable_but_one_zero ?b"
    by (simp add: printable_but_one_zero_def zero_bytes_def)
  have n: "\<not> begins_with_signature ?b"
    by (simp add: begins_with_signature_def binarySignatures_def strings_HasPrefix_def)
  from content_classification [OF l] l p n show ?thesis by auto
qed

subsection \<open>The extension plays no role\<close>

lemma png_is_binary:
  "isBinaryContent (take 512 ([CHR 0x89, CHR 0x50, CHR 0x4E, CHR 0x47] @ rest))"
  by (simp add: isBinaryContent_def binarySignatures_def)

text \<open>
  Claim C7. For every path, \<open>isTextFile\<close> returns what \<open>verifyTextContent\<close> returns: the
  lookup of the extension decides nothing. In particular a file whose first four bytes are
  \<open>89 50 4E 47\<close> is classified as binary (\<open>isTextFile\<close> returns false, without error)
  whatever its name.
\<close>

theorem isTextFile_is_verifyTextContent:
  "isTextFile h path = verifyTextContent h path
   \<and> (Open h path = Inr (Bytes ([CHR 0x89, CHR 0x50, CHR 0x4E, CHR 0x47] @ rest))
        \<longrightarrow> isTextFile h path = Inr False)"
  using png_is_binary [of rest]
  by (simp add: isTextFile_def verifyTextContent_def Let_def)

theorem isTextFile_is_verifyTextContent_witness:
  "Open png_host ''logo.txt''
     = Inr (Bytes ([CHR 0x89, CHR 0x50, CHR 0x4E, CHR 0x47] @ [CHR 0x0D, CHR 0x0A]))
   \<and> textExtensions (ToLower png_host (filepath_Ext ''logo.txt''))
   \<and> isTextFile png_host ''logo.txt'' = Inr False
   \<and> verifyTextContent png_host ''logo.txt'' = Inr False"
proof -
  have o: "Open png_host ''logo.txt''
      = Inr (Bytes ([CHR 0x89, CHR 0x50, CHR 0x4E, CHR 0x47] @ [CHR 0x0D, CHR 0x0A]))"
    by (simp add: png_host_def)
  have t: "textExtensions (ToLower png_host (filepath_Ext ''logo.txt''))"
    by (simp add: png_host_def example_host_def filepath_Ext_def Separator_def
        ascii_ToLower_def textExtensions_def)
  from isTextFile_is_verifyTextContent [of png_host "''logo.txt''" "[CHR 0x0D, CHR 0x0A]"] o t
  show ?thesis
    by auto
qed

section \<open>Properties of the ignore set resolver\<close>

lemma pewc_lines_filter:
  "pewc_lines h lines acc =
     acc @ filter (\<lambda>line. line \<noteq> [] \<and> \<not> strings_HasPrefix line ''#'')
             (map (TrimSpace h) lines)"
  by (induction lines arbitrary: acc) (auto simp: Let_def)

text \<open>
  Claim C8. For every root directory and every value of the flag, the resolved ignore set
  is the built-in list, in its order, when the defaults are in use (the empty list
  otherwise), followed by the rules of the \<open>.pewc\<close> file at the root when it can be read:
  its lines, trimmed, without the empty ones and those beginning with \<open>#\<close>, in the order
  of the file. A \<open>.pewc\<close> file that does not exist adds no pattern and is no error; any other
  error of reading it is returned. (The flag of the source is \<open>noDefaultIgnores\<close>, the
  negation of \<open>useDefaults\<close>.)
\<close>

theorem resolved_ignore_set:
  "getIgnorePatterns h rootDir (\<not> useDefaults) =
     (case ReadFile h (Join h rootDir ''.pewc'') of
        Inl err \<Rightarrow>
          if err = ErrNotExist then Inr (if useDefaults then defaultIgnorePatterns else [])
          else Inl (PewcError err)
      | Inr content \<Rightarrow>
          Inr ((if useDefaults then defaultIgnorePatterns else [])
               @ spec_rule_lines h content))"
  by (simp add: getIgnorePatterns_def readPewcFile_def os_IsNotExist_def spec_rule_lines_def
      pewc_lines_filter Let_def split: sum.splits)

section \<open>Properties of the directory walker\<close>

lemma visit_no_failure:
  "snd (collect_visit h r ps path d None st) \<noteq> Some (Failure e)"
  by (simp add: collect_visit_def split: sum.splits)

lemma walk_no_failure:
  "(\<And>p d s. snd (V p d None s) \<noteq> Some (Failure e)) \<Longrightarrow> listable n
     \<Longrightarrow> snd (walk j V path n st) \<noteq> Some (Failure e)"
  "(\<And>p d s. snd (V p d None s) \<noteq> Some (Failure e)) \<Longrightarrow> listable_entries es
     \<Longrightarrow> snd (walk_names j V path es st) \<noteq> Some (Failure e)"
proof (induction j V path n st and j V path es st rule: walk_walk_names.induct)
  case (1 join walkFn path err st)
  then show ?case by simp
next
  case (2 join walkFn path st)
  then show ?case by simp
next
  case (3 join walkFn path err st)
  then show ?case by simp
next
  case (4 join walkFn path entries st)
  obtain st1 r1 where v: "walkFn path True None st = (st1, r1)"
    by (cases "walkFn path True None st")
  show ?case
  proof (cases r1)
    case None
    with 4 v show ?thesis by simp
  next
    case (Some err1)
    with "4.prems"(1) [of path True st] v show ?thesis by simp
  qed
next
  case (5 join walkFn path st)
  then show ?case by simp
next
  case (6 join walkFn path name child rest st)
  obtain st1 r1 where w: "walk join walkFn (join path name) child st = (st1, r1)"
    by (cases "walk join walkFn (join path name) child st")
  from "6.prems" have lc: "listable child" and lr: "listable_entries rest" by simp_all
  have nf: "r1 \<noteq> Some (Failure e)"
    using "6.IH"(1) [OF "6.prems"(1) lc] w by simp
  show ?case
  proof (cases r1)
    case None
    with "6.IH"(2) [OF _ _ "6.prems"(1) lr] w show ?thesis by simp
  next
    case (Some err)
    show ?thesis
    proof (cases "case child of LstatFails e \<Rightarrow> err \<noteq> SkipDir | _ \<Rightarrow> \<not> is_dir child \<or> err \<noteq> SkipDir")
      case True
      with w Some nf show ?thesis by simp
    next
      case False
      with w Some "6.IH"(3) [OF _ _ _ "6.prems"(1) lr] show ?thesis by simp
    qed
  qed
qed


lemma prune_kind:
  "(case prune j h p c of
      LstatFails e \<Rightarrow> a
    | _ \<Rightarrow> \<not> is_dir (prune j h p c) \<or> b)
   = (case c of LstatFails e \<Rightarrow> a | _ \<Rightarrow> \<not> is_dir c \<or> b)"
  by (cases c) simp_all

lemma visit_cong:
  "fileList s = fileList s' \<Longrightarrow>
     snd (collect_visit h r ps p d err s) = snd (collect_visit h r ps p d err s')
     \<and> fileList (fst (collect_visit h r ps p d err s))
         = fileList (fst (collect_visit h r ps p d err s'))"
  by (simp add: collect_visit_def split: option.splits sum.splits)

lemma visit_failing:
  "isl (isTextFile h p) \<Longrightarrow>
     snd (collect_visit h r ps p False None s) = None
     \<and> fileList (fst (collect_visit h r ps p False None s)) = fileList s"
  by (cases "isTextFile h p") (simp_all add: collect_visit_def)

lemma walk_prune_aux:
  fixes V V' :: "walk_state WalkFunc"
  shows "(\<forall>a b c d. V a b c d = collect_visit h r ps a b c d) \<longrightarrow>
         (\<forall>st'. fileList s = fileList st' \<longrightarrow>
           same_outcome (walk j V p (prune j h p n) st') (walk j V p n s))"
    and "(\<forall>a b c d. V' a b c d = collect_visit h r ps a b c d) \<longrightarrow>
         (\<forall>st'. fileList s' = fileList st' \<longrightarrow>
           same_outcome (walk_names j' V' p' (prune_entries j' h p' es) st')
             (walk_names j' V' p' es s'))"
proof (induction j V p n s and j' V' p' es s'
    rule: walk_walk_names.induct)
  case (1 join walkFn path err st)
  show ?case
    using visit_cong [of st _ h r ps path False "Some err"]
    by (simp add: same_outcome_def)
next
  case (2 join walkFn path st)
  show ?case
    using visit_cong [of st _ h r ps path False None]
    by (simp add: same_outcome_def)
next
  case (3 join walkFn path err st)
  show ?case
    using visit_cong [of st _ h r ps path True "Some err"]
    by (simp add: same_outcome_def)
next
  case (4 join walkFn path entries st)
  have aux: "same_outcome (walk join walkFn path (prune join h path (Directory entries)) st')
            (walk join walkFn path (Directory entries) st)"
    if V': "\<forall>a b c d. walkFn a b c d = collect_visit h r ps a b c d"
      and fl: "fileList st = fileList st'" for st' :: walk_state
  proof -
    have V: "walkFn = collect_visit h r ps"
      using V' by (intro ext) simp
    obtain st1 r1 where v: "walkFn path True None st = (st1, r1)"
      by (cases "walkFn path True None st")
    obtain st1' r1' where v': "walkFn path True None st' = (st1', r1')"
      by (cases "walkFn path True None st'")
    from visit_cong [OF fl, of h r ps path True None] v v' V
    have r: "r1' = r1" and f: "fileList st1 = fileList st1'" by simp_all
    show ?thesis
    proof (cases r1)
      case None
      from "4.IH" [OF v [symmetric] None, rule_format, OF V' [rule_format] f] v v' r None
      show ?thesis by (simp add: same_outcome_def)
    next
      case (Some err1)
      with v v' r f show ?thesis by (simp add: same_outcome_def)
    qed
  qed
  show ?case by (intro impI allI) (rule aux)
next
  case (5 join walkFn path st)
  show ?case by (simp add: same_outcome_def)
next
  case (6 join walkFn path name child rest st)
  let ?p = "join path name"
  have aux: "same_outcome
            (walk_names join walkFn path (prune_entries join h path ((name, child) # rest)) st')
            (walk_names join walkFn path ((name, child) # rest) st)"
    if V': "\<forall>a b c d. walkFn a b c d = collect_visit h r ps a b c d"
      and fl: "fileList st = fileList st'" for st' :: walk_state
  proof -
    have V: "walkFn = collect_visit h r ps"
      using V' by (intro ext) simp
    obtain st1 r1 where w: "walk join walkFn ?p child st = (st1, r1)"
      by (cases "walk join walkFn ?p child st")
    show ?thesis
    proof (cases "child = RegularFile \<and> isl (isTextFile h (join path name))")
      case True
      then have c: "child = RegularFile" and bad: "isl (isTextFile h ?p)"
        by simp_all
      from visit_failing [OF bad, of r ps st] w c V
      have r1: "r1 = None" and f1: "fileList st1 = fileList st" by simp_all
      have f: "fileList st1 = fileList st'"
        using f1 fl by simp
      from "6.IH"(2) [OF w [symmetric] r1, rule_format, OF V' [rule_format] f] w r1 True
      show ?thesis by (simp add: same_outcome_def)
    next
      case False
      obtain st1' r1' where w': "walk join walkFn ?p (prune join h ?p child) st' = (st1', r1')"
        by (cases "walk join walkFn ?p (prune join h ?p child) st'")
      from "6.IH"(1) [rule_format, OF V' [rule_format] fl] w w'
      have r: "r1' = r1" and f: "fileList st1 = fileList st1'"
        by (simp_all add: same_outcome_def)
      have pe: "prune_entries join h path ((name, child) # rest)
          = (name, prune join h ?p child) # prune_entries join h path rest"
        using False by simp
      show ?thesis
      proof (cases r1)
        case None
        from "6.IH"(2) [OF w [symmetric] None, rule_format, OF V' [rule_format] f] w w' r None pe
        show ?thesis by (simp add: same_outcome_def)
      next
        case (Some err)
        show ?thesis
        proof (cases "case child of LstatFails e \<Rightarrow> err \<noteq> SkipDir
                                   | _ \<Rightarrow> \<not> is_dir child \<or> err \<noteq> SkipDir")
          case True
          with w w' r f Some pe show ?thesis
            by (simp add: prune_kind same_outcome_def)
        next
          case nt: False
          from "6.IH"(3) [OF w [symmetric] Some nt, rule_format, OF V' [rule_format] f] w w' r Some pe nt
          show ?thesis by (simp add: prune_kind same_outcome_def)
        qed
      qed
    qed
  qed
  show ?case by (intro impI allI) (rule aux)
qed


lemma Walk_no_failure:
  assumes "listable tree"
  shows "snd (filepath_Walk j dir tree (collect_visit h r ps) st) \<noteq> Some (Failure e)"
proof -
  have "snd (walk j (collect_visit h r ps) dir tree st) \<noteq> Some (Failure e)"
    using assms by (intro walk_no_failure(1)) (simp_all add: visit_no_failure)
  then show ?thesis
    by (auto simp: filepath_Walk_def split: prod.splits option.splits walk_error.splits)
qed

lemma collect_listable:
  assumes "listable tree"
  shows "\<exists>files. snd (collectTextFiles h rootDir ps tree) = Inr files"
proof -
  let ?w = "filepath_Walk (Join h) rootDir tree (collect_visit h rootDir ps)
              \<lparr>fileList = [], messages = []\<rparr>"
  obtain st r where w: "?w = (st, r)" by (cases ?w)
  have "r \<noteq> Some (Failure e)" for e
    using Walk_no_failure [OF assms, of "Join h" rootDir h rootDir ps _ e] w
    by (metis snd_conv)
  then have "snd (collectTextFiles h rootDir ps tree) = Inr (sort (fileList st))"
    using w by (cases r) (auto simp: collectTextFiles_def split: walk_error.splits)
  then show ?thesis by blast
qed

lemma collect_prune:
  "snd (collectTextFiles h rootDir ps (prune (Join h) h rootDir tree))
     = snd (collectTextFiles h rootDir ps tree)"
proof -
  let ?V = "collect_visit h rootDir ps"
  let ?s = "\<lparr>fileList = [], messages = []\<rparr>"
  have "same_outcome (walk (Join h) ?V rootDir (prune (Join h) h rootDir tree) ?s)
          (walk (Join h) ?V rootDir tree ?s)"
    using walk_prune_aux(1) [of ?V h rootDir ps ?s "Join h" rootDir tree] by simp
  then have "same_outcome (filepath_Walk (Join h) rootDir (prune (Join h) h rootDir tree) ?V ?s)
          (filepath_Walk (Join h) rootDir tree ?V ?s)"
    by (auto simp: same_outcome_def filepath_Walk_def
        split: prod.splits option.splits walk_error.splits)
  then show ?thesis
    by (auto simp: same_outcome_def collectTextFiles_def
        split: prod.splits option.splits walk_error.splits)
qed

text \<open>On a listable tree the walk keeps the files of \<open>eligible_files\<close>, in that order.\<close>

lemma visit_file_adds:
  "walk_adds (collect_visit h r ps path False None st) st
     (eligible_files h r ps path RegularFile) False"
  by (cases "isTextFile h path") (auto simp: walk_adds_def collect_visit_def)

lemma walk_collects:
  fixes V V' :: "walk_state WalkFunc"
  shows "(\<And>a b c d. V a b c d = collect_visit h r ps a b c d) \<Longrightarrow> j = Join h \<Longrightarrow> listable n
     \<Longrightarrow> walk_adds (walk j V p n s) s (eligible_files h r ps p n) (is_dir n)"
    and "(\<And>a b c d. V' a b c d = collect_visit h r ps a b c d) \<Longrightarrow> j' = Join h
     \<Longrightarrow> listable_entries es
     \<Longrightarrow> walk_adds (walk_names j' V' p' es s') s' (eligible_entries h r ps p' es) False"
proof (induction j V p n s and j' V' p' es s' rule: walk_walk_names.induct)
  case (1 join walkFn path err st)
  then show ?case by simp
next
  case (2 join walkFn path st)
  then show ?case
    using visit_file_adds [of h r ps path st] by (simp add: walk_adds_def)
next
  case (3 join walkFn path err st)
  then show ?case by simp
next
  case (4 join walkFn path entries st)
  note V = "4.prems"(1)
  show ?case
  proof (cases "isPathIgnored h path r ps")
    case True
    then show ?thesis
      by (simp add: V collect_visit_def walk_adds_def)
  next
    case False
    then have v: "walkFn path True None st = (st, None)"
      by (simp add: V collect_visit_def)
    from "4.prems"(3) have le: "listable_entries entries" by simp
    from "4.IH" [OF v [symmetric] refl "4.prems"(1,2) le] v False
    show ?thesis by (simp add: walk_adds_def)
  qed
next
  case (5 join walkFn path st)
  then show ?case by (simp add: walk_adds_def)
next
  case (6 join walkFn path name child rest st)
  obtain st1 r1 where w: "walk join walkFn (join path name) child st = (st1, r1)"
    by (cases "walk join walkFn (join path name) child st")
  from "6.prems"(3) have lc: "listable child" and lr: "listable_entries rest" by simp_all
  have c: "walk_adds (st1, r1) st (eligible_files h r ps (join path name) child) (is_dir child)"
    using "6.IH"(1) [OF "6.prems"(1,2) lc] w by simp
  have nl: "\<And>e. child \<noteq> LstatFails e" using lc by auto
  show ?case
  proof (cases r1)
    case None
    from "6.IH"(2) [OF w [symmetric] None "6.prems"(1,2) lr] w None c "6.prems"(2)
    show ?thesis by (simp add: walk_adds_def)
  next
    case (Some err)
    with c have sk: "err = SkipDir" "is_dir child"
      by (simp_all add: walk_adds_def)
    have nt: "\<not> (case child of LstatFails e \<Rightarrow> err \<noteq> SkipDir
                    | _ \<Rightarrow> \<not> is_dir child \<or> err \<noteq> SkipDir)"
      using sk nl by (cases child) simp_all
    have nt': "\<not> (case child of LstatFails e \<Rightarrow> SkipDir \<noteq> SkipDir
                    | _ \<Rightarrow> \<not> is_dir child \<or> SkipDir \<noteq> SkipDir)"
      using sk(2) by (cases child) simp_all
    from "6.IH"(3) [OF w [symmetric] Some nt "6.prems"(1,2) lr] w Some c nt' sk(1) "6.prems"(2)
    show ?thesis by (simp add: walk_adds_def)
  qed
qed

lemma collect_eligible:
  assumes "listable tree"
  shows "snd (collectTextFiles h rootDir ps tree)
     = Inr (sort (eligible_files h rootDir ps rootDir tree))"
proof -
  let ?V = "collect_visit h rootDir ps"
  let ?s = "\<lparr>fileList = [], messages = []\<rparr>"
  have "walk_adds (walk (Join h) ?V rootDir tree ?s) ?s
          (eligible_files h rootDir ps rootDir tree) (is_dir tree)"
    using assms by (intro walk_collects(1)) simp_all
  then show ?thesis
    by (auto simp: walk_adds_def collectTextFiles_def filepath_Walk_def
        split: prod.splits option.splits walk_error.splits)
qed


lemma eligible_are_text:
  "p \<in> set (eligible_files h r ps path n)
     \<longrightarrow> isTextFile h p = Inr True \<and> \<not> isPathIgnored h p r ps"
  "p \<in> set (eligible_entries h r ps path es)
     \<longrightarrow> isTextFile h p = Inr True \<and> \<not> isPathIgnored h p r ps"
proof (induction h r ps path n and h r ps path es rule: eligible_files_eligible_entries.induct)
  case (1 h rootDir patterns path)
  show ?case by simp
next
  case (2 h rootDir patterns path entries)
  then show ?case by simp
next
  case (3 h rootDir patterns path err)
  show ?case by simp
next
  case (4 h rootDir patterns path err)
  show ?case by simp
next
  case (5 h rootDir patterns path)
  show ?case by simp
next
  case (6 h rootDir patterns path name child rest)
  then show ?case by auto
qed

text \<open>
  Claim C10, as stated: for every tree whose root can be read, a file that cannot be opened
  or read never makes \<open>collectTextFiles\<close> fail; it fails only when an operation on the
  root fails. It fails on the tree below: the root is read, \<open>a.txt\<close> cannot be opened and
  is skipped, and the names of the directory \<open>sub\<close>, which is not the root, cannot be
  read; the closure returns that error (line 311) and the walk ends with it.
\<close>

theorem unreadable_subdirectory_fails_traversal:
  "isl (isTextFile locked_host ''/proj/a.txt'')
   \<and> snd (collectTextFiles locked_host ''/proj'' defaultIgnorePatterns
          (Directory [(''a.txt'', RegularFile), (''sub'', UnreadableDir ErrPermission)]))
     = Inl (WalkError ErrPermission)"
  by code_simp

text \<open>
  Claim C10, amended. For every tree in which each entry can be inspected with \<open>os.Lstat\<close>
  and the names of each directory can be read (at the root and below it),
  \<open>collectTextFiles\<close> returns a list of files, whichever files cannot be opened or read.
  The list is exactly the sorted list of the eligible files: the files that are not
  ignored, not below an ignored directory, and classified as text, each of them a file
  on which \<open>isTextFile\<close> succeeds with \<open>true\<close> and which no pattern ignores. A file
  that cannot be classified is skipped and changes nothing else: the list is the one
  returned for the tree without those files.
\<close>

theorem file_errors_never_fail_traversal:
  assumes "listable tree"
  shows "snd (collectTextFiles h rootDir ps tree)
        = Inr (sort (eligible_files h rootDir ps rootDir tree))
    \<and> (\<forall>p \<in> set (eligible_files h rootDir ps rootDir tree).
          isTextFile h p = Inr True \<and> \<not> isPathIgnored h p rootDir ps)
    \<and> snd (collectTextFiles h rootDir ps (prune (Join h) h rootDir tree))
        = snd (collectTextFiles h rootDir ps tree)"
proof (intro conjI ballI)
  show "snd (collectTextFiles h rootDir ps tree)
      = Inr (sort (eligible_files h rootDir ps rootDir tree))"
    using assms by (rule collect_eligible)
next
  fix p assume "p \<in> set (eligible_files h rootDir ps rootDir tree)"
  then show "isTextFile h p = Inr True" and "\<not> isPathIgnored h p rootDir ps"
    using eligible_are_text(1) [of p h rootDir ps rootDir tree] by simp_all
next
  show "snd (collectTextFiles h rootDir ps (prune (Join h) h rootDir tree))
      = snd (collectTextFiles h rootDir ps tree)"
    by (rule collect_prune)
qed

theorem file_errors_never_fail_traversal_witness:
  "listable (Directory [(''a.txt'', RegularFile),
                        (''src'', Directory [(''main.go'', RegularFile)])])
   \<and> isl (isTextFile locked_host ''/proj/a.txt'')
   \<and> snd (collectTextFiles locked_host ''/proj'' defaultIgnorePatterns
          (Directory [(''a.txt'', RegularFile),
                      (''src'', Directory [(''main.go'', RegularFile)])]))
     = Inr [''/proj/src/main.go'']
   \<and> isTextFile locked_host ''/proj/src/main.go'' = Inr True
   \<and> snd (collectTextFiles locked_host ''/proj'' defaultIgnorePatterns
          (Directory [(''src'', Directory [(''main.go'', RegularFile)])]))
     = Inr [''/proj/src/main.go'']"
proof -
  let ?T = "Directory [(''a.txt'', RegularFile),
                       (''src'', Directory [(''main.go'', RegularFile)])]"
  let ?E = "eligible_files locked_host ''/proj'' defaultIgnorePatterns ''/proj'' ?T"
  note t = file_errors_never_fail_traversal
             [of ?T locked_host "''/proj''" defaultIgnorePatterns]
  have l: "listable ?T" by simp
  have o: "isl (isTextFile locked_host ''/proj/a.txt'')"
    by (simp add: isTextFile_def verifyTextContent_def locked_host_def Let_def)
  have o2: "\<not> isl (isTextFile locked_host ''/proj/src/main.go'')"
    by (simp add: isTextFile_def verifyTextContent_def locked_host_def Let_def)
  have j: "Join locked_host = (\<lambda>dir name. dir @ ''/'' @ name)"
    by (simp add: locked_host_def example_host_def)
  have p: "prune (Join locked_host) locked_host ''/proj'' ?T
      = Directory [(''src'', Directory [(''main.go'', RegularFile)])]"
    using o o2 by (simp add: j)
  have e: "?E = [''/proj/src/main.go'']"
    by code_simp
  have "snd (collectTextFiles locked_host ''/proj'' defaultIgnorePatterns ?T) = Inr (sort ?E)"
    by (rule t [OF l, THEN conjunct1])
  then have r: "snd (collectTextFiles locked_host ''/proj'' defaultIgnorePatterns ?T)
      = Inr [''/proj/src/main.go'']"
    by (simp only: e sort_key_simps insort_key.simps)
  have "\<forall>p \<in> set ?E. isTextFile locked_host p = Inr True
          \<and> \<not> isPathIgnored locked_host p ''/proj'' defaultIgnorePatterns"
    by (rule t [OF l, THEN conjunct2, THEN conjunct1])
  then have "isTextFile locked_host ''/proj/src/main.go'' = Inr True
      \<and> \<not> isPathIgnored locked_host ''/proj/src/main.go'' ''/proj'' defaultIgnorePatterns"
    unfolding e by (rule bspec) (simp only: list.set insertI1)
  then have x: "isTextFile locked_host ''/proj/src/main.go'' = Inr True"
    by (rule conjunct1)
  have "snd (collectTextFiles locked_host ''/proj'' defaultIgnorePatterns
               (prune (Join locked_host) locked_host ''/proj'' ?T))
      = snd (collectTextFiles locked_host ''/proj'' defaultIgnorePatterns ?T)"
    by (rule t [OF l, THEN conjunct2, THEN conjunct2])
  then have q: "snd (collectTextFiles locked_host ''/proj'' defaultIgnorePatterns
               (Directory [(''src'', Directory [(''main.go'', RegularFile)])]))
      = Inr [''/proj/src/main.go'']"
    by (simp only: p r)
  from l o r x q show ?thesis by (intro conjI)
qed

end
